theory Spec2Isabelle
  imports Main
begin

section \<open>The node store of \<^verbatim>\<open>htmldom/node.py\<close>\<close>

text \<open>
  Python objects are mutable and are compared by identity (\<^verbatim>\<open>is\<close>), and the sibling
  links \<^verbatim>\<open>prev\<close>, \<^verbatim>\<open>next\<close>, \<^verbatim>\<open>head\<close>, \<^verbatim>\<open>tail\<close> alias each other. The model therefore
  keeps an explicit store: an address is the identity of a \<^verbatim>\<open>Node\<close> object, and the
  heap maps every address to the fields of that object. \<^verbatim>\<open>None\<close> is \<open>None\<close>, a
  reference to a node is \<open>Some\<close> of its address.
\<close>

type_synonym addr = nat

datatype error = NotAChild | AttributeError | KeyError

datatype NodeType = DOCUMENT | ELEMENT | ATTRIBUTE | PI | COMMENT | TEXT

text \<open>
  \<^verbatim>\<open>_childrenlist\<close>: the dataclass fields \<^verbatim>\<open>head\<close> and \<^verbatim>\<open>tail\<close>. Every \<^verbatim>\<open>Node\<close> creates its
  own list object in \<^verbatim>\<open>__init__\<close> and never hands it out, so the list is stored inside
  the record of the node that owns it.
\<close>

record childrenlist =
  head :: "addr option"
  tail :: "addr option"

record Node =
  node_type :: NodeType
  parent :: "addr option"
  prev :: "addr option"
  "next" :: "addr option"
  name :: string
  children :: childrenlist
  cmap :: "string \<rightharpoonup> addr"

text \<open>
  The process state: the heap, the number of \<^verbatim>\<open>Node\<close> objects created so far (the
  objects that exist are the addresses below it; Python never frees a node that is
  still referenced, and the model never frees at all), and the class variable
  \<^verbatim>\<open>Node._count\<close>, an \<^verbatim>\<open>itertools.count()\<close>, as the value its next \<^verbatim>\<open>next()\<close> returns. The
  counter starts at 0 and is only ever incremented, so a natural number holds it.
\<close>

record state =
  heap :: "addr \<Rightarrow> Node"
  allocated :: nat
  count :: nat

text \<open>
  A call either returns a value or raises; both leave a state behind, and the state
  at a raise is whatever had been written until then. A method that returns nothing
  returns \<open>()\<close>.
\<close>

type_synonym 'a result = "(error \<times> state) + ('a \<times> state)"

subsection \<open>Field assignments\<close>

definition set_prev :: "state \<Rightarrow> addr \<Rightarrow> addr option \<Rightarrow> state" where
  "set_prev s a v = s\<lparr>heap := (heap s)(a := (heap s a)\<lparr>prev := v\<rparr>)\<rparr>"

definition set_next :: "state \<Rightarrow> addr \<Rightarrow> addr option \<Rightarrow> state" where
  "set_next s a v = s\<lparr>heap := (heap s)(a := (heap s a)\<lparr>next := v\<rparr>)\<rparr>"

definition set_head :: "state \<Rightarrow> addr \<Rightarrow> addr option \<Rightarrow> state" where
  "set_head s a v =
     s\<lparr>heap := (heap s)(a := (heap s a)\<lparr>children := (children (heap s a))\<lparr>head := v\<rparr>\<rparr>)\<rparr>"

definition set_tail :: "state \<Rightarrow> addr \<Rightarrow> addr option \<Rightarrow> state" where
  "set_tail s a v =
     s\<lparr>heap := (heap s)(a := (heap s a)\<lparr>children := (children (heap s a))\<lparr>tail := v\<rparr>\<rparr>)\<rparr>"

definition set_cmap :: "state \<Rightarrow> addr \<Rightarrow> (string \<rightharpoonup> addr) \<Rightarrow> state" where
  "set_cmap s a m = s\<lparr>heap := (heap s)(a := (heap s a)\<lparr>cmap := m\<rparr>)\<rparr>"

subsection \<open>\<^verbatim>\<open>_childrenlist\<close>\<close>

text \<open>
  The list object of node \<open>p\<close> is addressed by \<open>p\<close>. \<^verbatim>\<open>isempty\<close>:
  \<^verbatim>\<open>self.head is None and self.tail is None\<close>.
\<close>

definition isempty :: "state \<Rightarrow> addr \<Rightarrow> bool" where
  "isempty s p = (head (children (heap s p)) = None \<and> tail (children (heap s p)) = None)"

text \<open>
  \<^verbatim>\<open>__iter__\<close> puts the cursor \<^verbatim>\<open>_tmp_head\<close> on \<^verbatim>\<open>head\<close>; \<^verbatim>\<open>__next__\<close> returns the node under
  the cursor and moves the cursor to that node's \<^verbatim>\<open>next\<close>, and raises \<^verbatim>\<open>StopIteration\<close>
  when the cursor is \<^verbatim>\<open>None\<close>. A full iteration (\<^verbatim>\<open>list(p.children)\<close>, a \<^verbatim>\<open>for\<close> loop) is
  the loop below, with the cursor as its argument. Nothing bounds the loop: on a
  cyclic \<^verbatim>\<open>next\<close> chain it never ends, which is the value \<open>None\<close> here.
\<close>

partial_function (option) walk :: "state \<Rightarrow> addr option \<Rightarrow> addr list option" where
  "walk s cur =
     (case cur of
        None \<Rightarrow> Some []
      | Some node \<Rightarrow> Option.bind (walk s (next (heap s node))) (\<lambda>rest. Some (node # rest)))"

definition iterate :: "state \<Rightarrow> addr \<Rightarrow> addr list option" where
  "iterate s p = walk s (head (children (heap s p)))"

definition childrenlist_append :: "state \<Rightarrow> addr \<Rightarrow> addr \<Rightarrow> state" where
  "childrenlist_append s p node =
     (let s1 = set_prev s node (tail (children (heap s p)));
          s2 = (case tail (children (heap s1 p)) of
                  None \<Rightarrow> set_head s1 p (Some node)
                | Some t \<Rightarrow> set_next s1 t (Some node));
          s3 = set_tail s2 p (Some node)
      in set_next s3 node None)"

definition childrenlist_insert_before :: "state \<Rightarrow> addr \<Rightarrow> addr \<Rightarrow> addr \<Rightarrow> state" where
  "childrenlist_insert_before s p ref new =
     (let s1 = set_next s new (Some ref);
          s2 = set_prev s1 new (prev (heap s1 ref));
          s3 = set_prev s2 ref (Some new);
          s4 = (case prev (heap s3 new) of
                  None \<Rightarrow> s3
                | Some b \<Rightarrow> set_next s3 b (Some new))
      in if head (children (heap s4 p)) = Some ref then set_head s4 p (Some new) else s4)"

text \<open>
  \<^verbatim>\<open>delete\<close> reads \<^verbatim>\<open>node.prev.next\<close> and \<^verbatim>\<open>node.next.prev\<close> without a guard: when the
  reference is \<^verbatim>\<open>None\<close> Python raises \<^verbatim>\<open>AttributeError\<close>, in the second case after the
  first assignment has been made. The closing \<^verbatim>\<open>del node\<close> unbinds the local variable
  and changes no object.
\<close>

definition childrenlist_delete :: "state \<Rightarrow> addr \<Rightarrow> addr \<Rightarrow> unit result" where
  "childrenlist_delete s p node =
     (case (if Some node \<noteq> head (children (heap s p))
            then (case prev (heap s node) of
                    None \<Rightarrow> Inl (AttributeError, s)
                  | Some b \<Rightarrow> Inr ((), set_next s b (next (heap s node))))
            else Inr ((), set_head s p (next (heap s node)))) of
        Inl e \<Rightarrow> Inl e
      | Inr (u, s1) \<Rightarrow>
          (if Some node \<noteq> tail (children (heap s1 p))
           then (case next (heap s1 node) of
                   None \<Rightarrow> Inl (AttributeError, s1)
                 | Some a \<Rightarrow> Inr ((), set_prev s1 a (prev (heap s1 node))))
           else Inr ((), set_tail s1 p (prev (heap s1 node)))))"

subsection \<open>\<^verbatim>\<open>Node\<close>\<close>

text \<open>
  \<^verbatim>\<open>make_name\<close>: \<^verbatim>\<open>next(Node._count)\<close>, then the lower-cased name of the object's class,
  an underscore and the count in decimal. The only class of the module that has
  \<^verbatim>\<open>make_name\<close> is \<^verbatim>\<open>Node\<close>; the node type plays no part.
\<close>

definition class_name :: string where
  "class_name = ''Node''"

definition lower_char :: "char \<Rightarrow> char" where
  "lower_char c =
     (case map_of (zip ''ABCDEFGHIJKLMNOPQRSTUVWXYZ'' ''abcdefghijklmnopqrstuvwxyz'') c of
        None \<Rightarrow> c
      | Some l \<Rightarrow> l)"

definition lower :: "string \<Rightarrow> string" where
  "lower cs = map lower_char cs"

definition digit :: "nat \<Rightarrow> char" where
  "digit d = ''0123456789'' ! d"

fun str :: "nat \<Rightarrow> string" where
  "str n = (if n < 10 then [digit n] else str (n div 10) @ [digit (n mod 10)])"

declare str.simps [simp del]

definition make_name :: "state \<Rightarrow> string \<times> state" where
  "make_name s =
     (let c = count s;
          s1 = s\<lparr>count := Suc c\<rparr>;
          cls = lower class_name
      in (cls @ ''_'' @ str c, s1))"

text \<open>
  \<^verbatim>\<open>Node(node_type, parent)\<close>: a new object, whose identity is the next unused address,
  with the fields in the order \<^verbatim>\<open>__init__\<close> assigns them.
\<close>

definition Node_init :: "state \<Rightarrow> NodeType \<Rightarrow> addr option \<Rightarrow> addr \<times> state" where
  "Node_init s t par =
     (let self = allocated s;
          (nm, s1) = make_name s
      in (self,
          s1\<lparr>heap := (heap s1)(self :=
                \<lparr>node_type = t, parent = par, prev = None, next = None, name = nm,
                 children = \<lparr>head = None, tail = None\<rparr>, cmap = Map.empty\<rparr>),
             allocated := Suc self\<rparr>))"

definition has_children :: "state \<Rightarrow> addr \<Rightarrow> bool" where
  "has_children s self = (\<not> isempty s self)"

definition previous_sibling :: "state \<Rightarrow> addr \<Rightarrow> addr option" where
  "previous_sibling s self = prev (heap s self)"

definition next_sibling :: "state \<Rightarrow> addr \<Rightarrow> addr option" where
  "next_sibling s self = next (heap s self)"

text \<open>
  \<^verbatim>\<open>has_as_child\<close> takes a name or a node (\<open>Inl\<close> a name, \<open>Inr\<close> a node) and looks the
  name up in \<^verbatim>\<open>_cmap\<close>.
\<close>

fun has_as_child :: "state \<Rightarrow> addr \<Rightarrow> string + addr \<Rightarrow> bool" where
  "has_as_child s self (Inr node) = (cmap (heap s self) (name (heap s node)) \<noteq> None)"
| "has_as_child s self (Inl nm) = (cmap (heap s self) nm \<noteq> None)"

definition fetch_child_by_name :: "state \<Rightarrow> addr \<Rightarrow> string \<Rightarrow> addr option" where
  "fetch_child_by_name s self nm = cmap (heap s self) nm"

definition insert_before :: "state \<Rightarrow> addr \<Rightarrow> addr \<Rightarrow> addr option \<Rightarrow> addr result" where
  "insert_before s self new ref =
     (let (inserted, s1) =
            (case ref of
               None \<Rightarrow> (True, childrenlist_append s self new)
             | Some r \<Rightarrow>
                 if has_as_child s self (Inl (name (heap s r)))
                 then (True, childrenlist_insert_before s self r new)
                 else (False, s))
      in if inserted
         then Inr (new, set_cmap s1 self ((cmap (heap s1 self))(name (heap s1 new) \<mapsto> new)))
         else Inl (NotAChild, s1))"

text \<open>
  The decorator \<^verbatim>\<open>child_existence_required\<close>: the wrapped method runs only when
  \<^verbatim>\<open>self.has_as_child(child.name)\<close>; otherwise \<^verbatim>\<open>NotAChild\<close> is raised before the method
  is entered. \<open>body\<close> is the wrapped method applied to its arguments.
\<close>

definition child_existence_required ::
  "state \<Rightarrow> addr \<Rightarrow> addr \<Rightarrow> 'a result \<Rightarrow> 'a result" where
  "child_existence_required s self child body =
     (if has_as_child s self (Inl (name (heap s child))) then body else Inl (NotAChild, s))"

text \<open>\<^verbatim>\<open>self._cmap.pop(key)\<close> raises \<^verbatim>\<open>KeyError\<close> when the key is missing.\<close>

definition cmap_pop :: "state \<Rightarrow> addr \<Rightarrow> string \<Rightarrow> unit result" where
  "cmap_pop s self k =
     (case cmap (heap s self) k of
        None \<Rightarrow> Inl (KeyError, s)
      | Some v \<Rightarrow> Inr ((), set_cmap s self ((cmap (heap s self))(k := None))))"

definition remove_child_body :: "state \<Rightarrow> addr \<Rightarrow> addr \<Rightarrow> addr result" where
  "remove_child_body s self child =
     (case childrenlist_delete s self child of
        Inl e \<Rightarrow> Inl e
      | Inr (u, s1) \<Rightarrow>
          (case cmap_pop s1 self (name (heap s1 child)) of
             Inl e \<Rightarrow> Inl e
           | Inr (u, s2) \<Rightarrow> Inr (child, s2)))"

definition remove_child :: "state \<Rightarrow> addr \<Rightarrow> addr \<Rightarrow> addr result" where
  "remove_child s self child =
     child_existence_required s self child (remove_child_body s self child)"

definition replace_child_body :: "state \<Rightarrow> addr \<Rightarrow> addr \<Rightarrow> addr \<Rightarrow> addr result" where
  "replace_child_body s self old new =
     (let s1 = childrenlist_insert_before s self old new;
          s2 = set_cmap s1 self ((cmap (heap s1 self))(name (heap s1 new) \<mapsto> new))
      in case childrenlist_delete s2 self old of
           Inl e \<Rightarrow> Inl e
         | Inr (u, s3) \<Rightarrow>
             (case cmap_pop s3 self (name (heap s3 old)) of
                Inl e \<Rightarrow> Inl e
              | Inr (u, s4) \<Rightarrow> Inr (old, s4)))"

definition replace_child :: "state \<Rightarrow> addr \<Rightarrow> addr \<Rightarrow> addr \<Rightarrow> addr result" where
  "replace_child s self old new =
     child_existence_required s self old (replace_child_body s self old new)"

section \<open>Processes: sequences of calls\<close>

text \<open>
  A process starts with no node and with the counter at 0. The heap is a total
  function; the cells at and above \<open>allocated\<close> hold no object, and no reference of an
  object points there.
\<close>

definition blank :: Node where
  "blank = \<lparr>node_type = ELEMENT, parent = None, prev = None, next = None, name = [],
            children = \<lparr>head = None, tail = None\<rparr>, cmap = Map.empty\<rparr>"

definition init :: state where
  "init = \<lparr>heap = (\<lambda>_. blank), allocated = 0, count = 0\<rparr>"

text \<open>
  The calls of the public interface that create or change nodes. A caller may catch
  an exception and go on, so the state after a call is the state it leaves behind,
  returned or raised.
\<close>

datatype call =
    New NodeType "addr option"
  | InsertBefore addr addr "addr option"
  | ReplaceChild addr addr addr
  | RemoveChild addr addr

fun after :: "'a result \<Rightarrow> state" where
  "after (Inl (e, s)) = s"
| "after (Inr (v, s)) = s"

fun exec :: "state \<Rightarrow> call \<Rightarrow> state" where
  "exec s (New t par) = snd (Node_init s t par)"
| "exec s (InsertBefore p new ref) = after (insert_before s p new ref)"
| "exec s (ReplaceChild p old new) = after (replace_child s p old new)"
| "exec s (RemoveChild p child) = after (remove_child s p child)"

fun run :: "state \<Rightarrow> call list \<Rightarrow> state" where
  "run s [] = s"
| "run s (c # cs) = run (exec s c) cs"

text \<open>
  A node is unattached when no existing node answers \<^verbatim>\<open>has_as_child\<close> for it. A call
  is proper when its arguments are existing nodes and the node it attaches is
  unattached at that moment; a sequence of calls is proper when each call is, in
  the state the calls before it have left.
\<close>

definition unattached :: "state \<Rightarrow> addr \<Rightarrow> bool" where
  "unattached s new = (\<forall>q < allocated s. \<not> has_as_child s q (Inr new))"

fun exists_opt :: "state \<Rightarrow> addr option \<Rightarrow> bool" where
  "exists_opt s None = True"
| "exists_opt s (Some a) = (a < allocated s)"

fun proper_call :: "state \<Rightarrow> call \<Rightarrow> bool" where
  "proper_call s (New t par) = exists_opt s par"
| "proper_call s (InsertBefore p new ref) =
     (p < allocated s \<and> new < allocated s \<and> exists_opt s ref \<and> unattached s new)"
| "proper_call s (ReplaceChild p old new) =
     (p < allocated s \<and> old < allocated s \<and> new < allocated s \<and> unattached s new)"
| "proper_call s (RemoveChild p child) = (p < allocated s \<and> child < allocated s)"

fun proper :: "state \<Rightarrow> call list \<Rightarrow> bool" where
  "proper s [] = True"
| "proper s (c # cs) = (proper_call s c \<and> proper (exec s c) cs)"

section \<open>Well-formed sibling lists\<close>

text \<open>
  \<open>links h b cs z\<close>: the nodes \<open>cs\<close> are chained in this order by \<^verbatim>\<open>next\<close> and \<^verbatim>\<open>prev\<close>,
  the first one has \<open>b\<close> as its \<^verbatim>\<open>prev\<close> and the last one has \<open>z\<close> as its \<^verbatim>\<open>next\<close>.
  \<open>first cs z\<close> is the reference to the first node of \<open>cs\<close>, or \<open>z\<close> when there is none.
\<close>

fun first :: "addr list \<Rightarrow> addr option \<Rightarrow> addr option" where
  "first [] z = z"
| "first (c # cs) z = Some c"

fun links :: "(addr \<Rightarrow> Node) \<Rightarrow> addr option \<Rightarrow> addr list \<Rightarrow> addr option \<Rightarrow> bool" where
  "links h b [] z = True"
| "links h b (c # cs) z =
     (prev (h c) = b \<and> next (h c) = first cs z \<and> links h (Some c) cs z)"

text \<open>
  \<open>sibling_list s p cs\<close>: the child list of \<open>p\<close> is the doubly-linked chain of the
  distinct nodes \<open>cs\<close>, from \<^verbatim>\<open>head\<close> to \<^verbatim>\<open>tail\<close>.
\<close>

definition sibling_list :: "state \<Rightarrow> addr \<Rightarrow> addr list \<Rightarrow> bool" where
  "sibling_list s p cs =
     (distinct cs \<and>
      head (children (heap s p)) = first cs None \<and>
      tail (children (heap s p)) = first (rev cs) None \<and>
      links (heap s) None cs None)"

text \<open>The name \<^verbatim>\<open>make_name\<close> gives when the counter stands at \<open>k\<close>.\<close>

definition node_name :: "nat \<Rightarrow> string" where
  "node_name k = ''node_'' @ str k"

text \<open>
  \<open>indexed s p cs\<close>: the child index of \<open>p\<close> holds exactly the nodes \<open>cs\<close>, each under
  its name.
\<close>

definition indexed :: "state \<Rightarrow> addr \<Rightarrow> addr list \<Rightarrow> bool" where
  "indexed s p cs =
     ((\<forall>c \<in> set cs. cmap (heap s p) (name (heap s c)) = Some c) \<and>
      (\<forall>nm c. cmap (heap s p) nm = Some c \<longrightarrow> c \<in> set cs \<and> name (heap s c) = nm))"

text \<open>
  \<open>wf s L\<close>: the invariant of proper processes. Every node carries the name of its
  creation, the counter has advanced once per node, and \<open>L\<close> gives every node its
  children: a well-formed sibling list of existing nodes, mirrored by the index,
  and sharing no node with the list of another parent.
\<close>

definition wf :: "state \<Rightarrow> (addr \<Rightarrow> addr list) \<Rightarrow> bool" where
  "wf s L =
     (count s = allocated s \<and>
      (\<forall>a < allocated s. name (heap s a) = node_name a) \<and>
      (\<forall>p < allocated s.
          sibling_list s p (L p) \<and> indexed s p (L p) \<and> (\<forall>c \<in> set (L p). c < allocated s)) \<and>
      (\<forall>p < allocated s. \<forall>q < allocated s. p \<noteq> q \<longrightarrow> set (L p) \<inter> set (L q) = {}))"

text \<open>
  \<open>same_census s s'\<close>: the same objects exist in both states, with the same names,
  parents and types, and the counter has not moved.
\<close>

definition same_census :: "state \<Rightarrow> state \<Rightarrow> bool" where
  "same_census s s' =
     (allocated s' = allocated s \<and> count s' = count s \<and>
      (\<forall>b. name (heap s' b) = name (heap s b) \<and> parent (heap s' b) = parent (heap s b) \<and>
           node_type (heap s' b) = node_type (heap s b)))"

section \<open>Concrete processes\<close>

text \<open>
  \<open>nodes k\<close>: \<open>k\<close> nodes have been created, none is attached. The nodes are the
  addresses \<open>0\<close> to \<open>k - 1\<close>, in the order of their creation.
\<close>

definition nodes :: "nat \<Rightarrow> state" where
  "nodes k = run init (replicate k (New ELEMENT None))"

text \<open>A document \<open>0\<close>, an element \<open>1\<close> created with the document as parent, an element \<open>2\<close>.\<close>

definition doc_and_two :: state where
  "doc_and_two = run init [New DOCUMENT None, New ELEMENT (Some 0), New ELEMENT None]"

text \<open>
  Four nodes; \<open>1\<close> and then \<open>2\<close> have been appended to the children of \<open>0\<close>, and \<open>3\<close> is
  free.
\<close>

definition family :: state where
  "family = run (nodes 4) [InsertBefore 0 1 None, InsertBefore 0 2 None]"

text \<open>The calls that lead to \<open>family\<close>, from the start of the process.\<close>

definition family_calls :: "call list" where
  "family_calls =
     [New ELEMENT None, New ELEMENT None, New ELEMENT None, New ELEMENT None,
      InsertBefore 0 1 None, InsertBefore 0 2 None]"

section \<open>Reading a field after an assignment\<close>

lemma set_prev_simps [simp]:
  "prev (heap (set_prev s a v) b) = (if b = a then v else prev (heap s b))"
  "next (heap (set_prev s a v) b) = next (heap s b)"
  "children (heap (set_prev s a v) b) = children (heap s b)"
  "cmap (heap (set_prev s a v) b) = cmap (heap s b)"
  "name (heap (set_prev s a v) b) = name (heap s b)"
  "parent (heap (set_prev s a v) b) = parent (heap s b)"
  "node_type (heap (set_prev s a v) b) = node_type (heap s b)"
  "allocated (set_prev s a v) = allocated s"
  "count (set_prev s a v) = count s"
  by (simp_all add: set_prev_def)

lemma set_next_simps [simp]:
  "prev (heap (set_next s a v) b) = prev (heap s b)"
  "next (heap (set_next s a v) b) = (if b = a then v else next (heap s b))"
  "children (heap (set_next s a v) b) = children (heap s b)"
  "cmap (heap (set_next s a v) b) = cmap (heap s b)"
  "name (heap (set_next s a v) b) = name (heap s b)"
  "parent (heap (set_next s a v) b) = parent (heap s b)"
  "node_type (heap (set_next s a v) b) = node_type (heap s b)"
  "allocated (set_next s a v) = allocated s"
  "count (set_next s a v) = count s"
  by (simp_all add: set_next_def)

lemma set_head_simps [simp]:
  "prev (heap (set_head s a v) b) = prev (heap s b)"
  "next (heap (set_head s a v) b) = next (heap s b)"
  "head (children (heap (set_head s a v) b)) = (if b = a then v else head (children (heap s b)))"
  "tail (children (heap (set_head s a v) b)) = tail (children (heap s b))"
  "cmap (heap (set_head s a v) b) = cmap (heap s b)"
  "name (heap (set_head s a v) b) = name (heap s b)"
  "parent (heap (set_head s a v) b) = parent (heap s b)"
  "node_type (heap (set_head s a v) b) = node_type (heap s b)"
  "allocated (set_head s a v) = allocated s"
  "count (set_head s a v) = count s"
  by (simp_all add: set_head_def)

lemma set_tail_simps [simp]:
  "prev (heap (set_tail s a v) b) = prev (heap s b)"
  "next (heap (set_tail s a v) b) = next (heap s b)"
  "head (children (heap (set_tail s a v) b)) = head (children (heap s b))"
  "tail (children (heap (set_tail s a v) b)) = (if b = a then v else tail (children (heap s b)))"
  "cmap (heap (set_tail s a v) b) = cmap (heap s b)"
  "name (heap (set_tail s a v) b) = name (heap s b)"
  "parent (heap (set_tail s a v) b) = parent (heap s b)"
  "node_type (heap (set_tail s a v) b) = node_type (heap s b)"
  "allocated (set_tail s a v) = allocated s"
  "count (set_tail s a v) = count s"
  by (simp_all add: set_tail_def)

lemma set_cmap_simps [simp]:
  "prev (heap (set_cmap s a m) b) = prev (heap s b)"
  "next (heap (set_cmap s a m) b) = next (heap s b)"
  "children (heap (set_cmap s a m) b) = children (heap s b)"
  "cmap (heap (set_cmap s a m) b) = (if b = a then m else cmap (heap s b))"
  "name (heap (set_cmap s a m) b) = name (heap s b)"
  "parent (heap (set_cmap s a m) b) = parent (heap s b)"
  "node_type (heap (set_cmap s a m) b) = node_type (heap s b)"
  "allocated (set_cmap s a m) = allocated s"
  "count (set_cmap s a m) = count s"
  by (simp_all add: set_cmap_def)

lemma walk_None [simp]: "walk s None = Some []"
  by (subst walk.simps) simp

lemma walk_Some [simp]:
  "walk s (Some a) = Option.bind (walk s (next (heap s a))) (\<lambda>rest. Some (a # rest))"
  by (subst walk.simps) simp

lemmas evaluate =
  Node_init_def make_name_def insert_before_def childrenlist_append_def
  childrenlist_insert_before_def childrenlist_delete_def remove_child_def replace_child_def
  remove_child_body_def replace_child_body_def child_existence_required_def cmap_pop_def
  set_prev_def set_next_def set_head_def set_tail_def set_cmap_def init_def blank_def
  iterate_def Let_def str.simps digit_def lower_def class_name_def lower_char_def
  nodes_def doc_and_two_def unattached_def

lemmas evaluate2 = evaluate family_def eval_nat_numeral sibling_list_def

section \<open>What no call changes\<close>

lemma same_census_refl [simp]: "same_census s s"
  by (simp add: same_census_def)

lemma same_census_trans: "same_census s s1 \<Longrightarrow> same_census s1 s2 \<Longrightarrow> same_census s s2"
  by (simp add: same_census_def)

lemma same_census_set [simp]:
  "same_census s (set_prev s a v)" "same_census s (set_next s a v)"
  "same_census s (set_head s a v)" "same_census s (set_tail s a v)"
  "same_census s (set_cmap s a m)"
  by (simp_all add: same_census_def)

lemma childrenlist_append_frame [simp]:
  "cmap (heap (childrenlist_append s p node) b) = cmap (heap s b)"
  "name (heap (childrenlist_append s p node) b) = name (heap s b)"
  "parent (heap (childrenlist_append s p node) b) = parent (heap s b)"
  "node_type (heap (childrenlist_append s p node) b) = node_type (heap s b)"
  "allocated (childrenlist_append s p node) = allocated s"
  "count (childrenlist_append s p node) = count s"
  by (simp_all add: childrenlist_append_def Let_def split: option.split)

lemma childrenlist_insert_before_frame [simp]:
  "cmap (heap (childrenlist_insert_before s p ref new) b) = cmap (heap s b)"
  "name (heap (childrenlist_insert_before s p ref new) b) = name (heap s b)"
  "parent (heap (childrenlist_insert_before s p ref new) b) = parent (heap s b)"
  "node_type (heap (childrenlist_insert_before s p ref new) b) = node_type (heap s b)"
  "allocated (childrenlist_insert_before s p ref new) = allocated s"
  "count (childrenlist_insert_before s p ref new) = count s"
  by (simp_all add: childrenlist_insert_before_def Let_def split: option.split)

lemma same_census_append [simp]: "same_census s (childrenlist_append s p node)"
  by (simp add: same_census_def)

lemma same_census_insert [simp]: "same_census s (childrenlist_insert_before s p ref new)"
  by (simp add: same_census_def)

lemma same_census_delete [simp]: "same_census s (after (childrenlist_delete s p node))"
  by (simp add: childrenlist_delete_def same_census_def split: option.split)

lemma same_census_pop [simp]: "same_census s (after (cmap_pop s p k))"
  by (simp add: cmap_pop_def same_census_def split: option.split)

lemma same_census_insert_before [simp]: "same_census s (after (insert_before s p new ref))"
  by (auto simp: insert_before_def Let_def same_census_def split: option.splits)

lemma same_census_remove_body [simp]: "same_census s (after (remove_child_body s p child))"
proof (cases "childrenlist_delete s p child")
  case (Inl e)
  then have "after (remove_child_body s p child) = after (childrenlist_delete s p child)"
    by (cases e) (simp add: remove_child_body_def)
  then show ?thesis by simp
next
  case (Inr r)
  obtain u s1 where r: "r = (u, s1)" by (cases r)
  have s1: "s1 = after (childrenlist_delete s p child)" using Inr r by simp
  have "after (remove_child_body s p child) = after (cmap_pop s1 p (name (heap s1 child)))"
    using Inr r by (auto simp: remove_child_body_def split: sum.splits)
  moreover have "same_census s s1" unfolding s1 by simp
  moreover have "same_census s1 (after (cmap_pop s1 p (name (heap s1 child))))" by simp
  ultimately show ?thesis by (metis same_census_trans)
qed

lemma same_census_remove [simp]: "same_census s (after (remove_child s p child))"
  by (simp add: remove_child_def child_existence_required_def)

text \<open>
  \<^verbatim>\<open>replace_child\<close> does what \<^verbatim>\<open>insert_before(new, old)\<close> followed by \<^verbatim>\<open>remove_child(old)\<close>
  does.
\<close>

lemma replace_child_eq:
  "replace_child s p old new =
     (case insert_before s p new (Some old) of
        Inl e \<Rightarrow> Inl e
      | Inr (r, s1) \<Rightarrow> remove_child s1 p old)"
  by (simp add: replace_child_def replace_child_body_def child_existence_required_def
      insert_before_def remove_child_def remove_child_body_def Let_def)

lemma same_census_replace [simp]: "same_census s (after (replace_child s p old new))"
proof (cases "insert_before s p new (Some old)")
  case (Inl e)
  then have "after (replace_child s p old new) = after (insert_before s p new (Some old))"
    by (cases e) (simp add: replace_child_eq)
  then show ?thesis by simp
next
  case (Inr r)
  obtain u s1 where r: "r = (u, s1)" by (cases r)
  have s1: "s1 = after (insert_before s p new (Some old))" using Inr r by simp
  have "after (replace_child s p old new) = after (remove_child s1 p old)"
    using Inr r by (simp add: replace_child_eq)
  moreover have "same_census s s1" unfolding s1 by simp
  moreover have "same_census s1 (after (remove_child s1 p old))" by simp
  ultimately show ?thesis by (metis same_census_trans)
qed

lemma same_census_exec: "same_census s (exec s c) \<or> (\<exists>t par. c = New t par)"
  by (cases c) simp_all

lemma childrenlist_delete_error:
  "childrenlist_delete s p node = Inl (e, s') \<Longrightarrow> e = AttributeError"
  by (auto simp: childrenlist_delete_def split: if_splits option.splits sum.splits)

lemma cmap_pop_error: "cmap_pop s p k = Inl (e, s') \<Longrightarrow> e = KeyError"
  by (auto simp: cmap_pop_def split: option.splits)

lemma lower_class_name: "lower class_name = ''node''"
  by (simp add: lower_def class_name_def lower_char_def)

section \<open>The list operations on a well-formed sibling list\<close>

lemma first_append [simp]: "first (xs @ ys) z = first xs (first ys z)"
  by (cases xs) simp_all

lemma first_in: "first xs z = Some r \<Longrightarrow> r \<in> set xs \<or> z = Some r"
  by (cases xs) auto

lemma first_in': "Some r = first xs z \<Longrightarrow> r \<in> set xs \<or> z = Some r"
  by (cases xs) auto

lemma first_rev_snoc: "first (rev (xs @ [x])) z = Some x"
  by simp

lemma links_append:
  "links h b (xs @ ys) z = (links h b xs (first ys z) \<and> links h (first (rev xs) b) ys z)"
  by (induction xs arbitrary: b) auto

lemma links_cong:
  "(\<And>c. c \<in> set cs \<Longrightarrow> prev (h' c) = prev (h c) \<and> next (h' c) = next (h c)) \<Longrightarrow>
   links h' b cs z = links h b cs z"
  by (induction cs arbitrary: b) auto

lemma walk_links: "links (heap s) b cs None \<Longrightarrow> walk s (first cs None) = Some cs"
proof (induction cs arbitrary: b)
  case Nil
  then show ?case by simp
next
  case (Cons c cs)
  from Cons.prems have "walk s (first cs None) = Some cs"
    by (intro Cons.IH [of "Some c"]) simp
  with Cons.prems show ?case by simp
qed

lemma iterate_sibling_list: "sibling_list s p cs \<Longrightarrow> iterate s p = Some cs"
  using walk_links [of s None cs] by (simp add: sibling_list_def iterate_def)

lemma append_sibling_list:
  assumes "sibling_list s p cs" and "new \<notin> set cs"
  shows "sibling_list (childrenlist_append s p new) p (cs @ [new])"
proof (cases cs rule: rev_cases)
  case Nil
  with assms show ?thesis
    by (simp add: sibling_list_def childrenlist_append_def Let_def)
next
  case (snoc xs t)
  let ?s' = "childrenlist_append s p new"
  from assms snoc have t: "tail (children (heap s p)) = Some t" and tn: "t \<noteq> new"
    and d: "distinct xs" "t \<notin> set xs" "new \<notin> set xs"
    and hd: "head (children (heap s p)) = first xs (Some t)"
    and l1: "links (heap s) None xs (Some t)"
    and l2: "prev (heap s t) = first (rev xs) None"
    by (auto simp: sibling_list_def links_append)
  have "links (heap ?s') None xs (Some t) = links (heap s) None xs (Some t)"
    using d t tn by (intro links_cong) (auto simp: childrenlist_append_def Let_def)
  with l1 l2 t tn d hd show ?thesis
    by (auto simp: snoc sibling_list_def links_append childrenlist_append_def Let_def)
qed

lemma insert_sibling_list:
  assumes "sibling_list s p (xs @ ref # ys)" and "new \<notin> set (xs @ ref # ys)"
  shows "sibling_list (childrenlist_insert_before s p ref new) p (xs @ new # ref # ys)"
proof -
  let ?s' = "childrenlist_insert_before s p ref new"
  from assms have d: "distinct xs" "distinct ys" "ref \<notin> set xs" "ref \<notin> set ys"
      "set xs \<inter> set ys = {}" "new \<notin> set xs" "new \<notin> set ys" "new \<noteq> ref"
    and hd: "head (children (heap s p)) = first xs (Some ref)"
    and tl: "tail (children (heap s p)) = first (rev ys) (Some ref)"
    and l1: "links (heap s) None xs (Some ref)"
    and pr: "prev (heap s ref) = first (rev xs) None"
    and nr: "next (heap s ref) = first ys None"
    and l2: "links (heap s) (Some ref) ys None"
    by (auto simp: sibling_list_def links_append)
  show ?thesis
  proof (cases xs rule: rev_cases)
    case Nil
    have "links (heap ?s') (Some ref) ys None = links (heap s) (Some ref) ys None"
      using d pr Nil by (intro links_cong) (auto simp: childrenlist_insert_before_def Let_def)
    with d hd tl pr nr l2 Nil show ?thesis
      by (auto simp: sibling_list_def links_append childrenlist_insert_before_def Let_def)
  next
    case (snoc us b)
    have a: "links (heap ?s') (Some ref) ys None = links (heap s) (Some ref) ys None"
      using d pr snoc by (intro links_cong) (auto simp: childrenlist_insert_before_def Let_def)
    have b: "links (heap ?s') None us (Some b) = links (heap s) None us (Some b)"
      using d pr snoc assms(1)
      by (intro links_cong) (auto simp: childrenlist_insert_before_def Let_def sibling_list_def)
    from d hd tl pr nr l1 l2 snoc a b assms(1) show ?thesis
      by (auto simp: sibling_list_def links_append childrenlist_insert_before_def Let_def
          dest: first_in first_in')
  qed
qed

lemma delete_sibling_list:
  assumes "sibling_list s p (xs @ node # ys)"
  shows "\<exists>s'. childrenlist_delete s p node = Inr ((), s') \<and> sibling_list s' p (xs @ ys)"
proof -
  from assms have d: "distinct xs" "distinct ys" "node \<notin> set xs" "node \<notin> set ys"
      "set xs \<inter> set ys = {}"
    and hd: "head (children (heap s p)) = first xs (Some node)"
    and tl: "tail (children (heap s p)) = first (rev ys) (Some node)"
    and l1: "links (heap s) None xs (Some node)"
    and pr: "prev (heap s node) = first (rev xs) None"
    and nr: "next (heap s node) = first ys None"
    and l2: "links (heap s) (Some node) ys None"
    by (auto simp: sibling_list_def links_append)
  show ?thesis
  proof (cases xs rule: rev_cases)
    case Nil
    note xs = Nil
    show ?thesis
    proof (cases ys)
      case Nil
      with xs d hd tl pr nr show ?thesis
        by (simp add: sibling_list_def childrenlist_delete_def)
    next
      case (Cons a vs)
      let ?s' = "set_prev (set_head s p (Some a)) a None"
      have "links (heap ?s') (Some a) vs None = links (heap s) (Some a) vs None"
        using d Cons by (intro links_cong) auto
      with xs Cons d hd tl pr nr l2 show ?thesis
        by (auto simp: sibling_list_def childrenlist_delete_def dest: first_in first_in')
    qed
  next
    case (snoc us b)
    note xs = snoc
    show ?thesis
    proof (cases ys)
      case Nil
      let ?s' = "set_tail (set_next s b None) p (Some b)"
      have "links (heap ?s') None us (Some b) = links (heap s) None us (Some b)"
        using d xs by (intro links_cong) auto
      with xs Nil d hd tl pr nr l1 show ?thesis
        by (auto simp: sibling_list_def childrenlist_delete_def links_append dest: first_in first_in')
    next
      case (Cons a vs)
      let ?s' = "set_prev (set_next s b (Some a)) a (Some b)"
      have 1: "links (heap ?s') None us (Some b) = links (heap s) None us (Some b)"
        using d xs Cons by (intro links_cong) auto
      have 2: "links (heap ?s') (Some a) vs None = links (heap s) (Some a) vs None"
        using d xs Cons by (intro links_cong) auto
      from xs Cons d hd tl pr nr l1 l2 1 2 show ?thesis
        by (auto simp: sibling_list_def childrenlist_delete_def links_append dest: first_in first_in')
    qed
  qed
qed

lemma links_prev_in:
  "links h b0 cs z \<Longrightarrow> c \<in> set cs \<Longrightarrow> prev (h c) = Some b \<Longrightarrow> b \<in> set cs \<or> b0 = Some b"
  by (induction cs arbitrary: b0) auto

lemma links_next_in:
  "links h b0 cs z \<Longrightarrow> c \<in> set cs \<Longrightarrow> next (h c) = Some a \<Longrightarrow> a \<in> set cs \<or> z = Some a"
  by (induction cs arbitrary: b0) (auto dest: first_in)

lemma sibling_list_prev_in:
  "sibling_list s p cs \<Longrightarrow> c \<in> set cs \<Longrightarrow> prev (heap s c) = Some b \<Longrightarrow> b \<in> set cs"
  using links_prev_in [of "heap s" None cs None c b] by (simp add: sibling_list_def)

lemma sibling_list_next_in:
  "sibling_list s p cs \<Longrightarrow> c \<in> set cs \<Longrightarrow> next (heap s c) = Some a \<Longrightarrow> a \<in> set cs"
  using links_next_in [of "heap s" None cs None c a] by (simp add: sibling_list_def)

lemma sibling_list_tail_in:
  "sibling_list s p cs \<Longrightarrow> tail (children (heap s p)) = Some t \<Longrightarrow> t \<in> set cs"
  by (auto simp: sibling_list_def dest: first_in first_in')

lemma sibling_list_cong:
  assumes "children (heap s' q) = children (heap s q)"
    and "\<And>c. c \<in> set cs \<Longrightarrow> prev (heap s' c) = prev (heap s c) \<and> next (heap s' c) = next (heap s c)"
  shows "sibling_list s' q cs = sibling_list s q cs"
  using assms links_cong [of cs "heap s'" "heap s" None None]
  by (simp add: sibling_list_def)

lemma sibling_list_set_cmap [simp]: "sibling_list (set_cmap s a m) p cs = sibling_list s p cs"
  by (rule sibling_list_cong) simp_all

lemma indexed_cong:
  assumes "cmap (heap s' q) = cmap (heap s q)"
    and "\<And>c. name (heap s' c) = name (heap s c)"
  shows "indexed s' q cs = indexed s q cs"
  using assms by (simp add: indexed_def)

text \<open>The cells each list operation writes.\<close>

lemma append_footprint:
  "a \<noteq> new \<Longrightarrow> Some a \<noteq> tail (children (heap s p)) \<Longrightarrow>
     prev (heap (childrenlist_append s p new) a) = prev (heap s a) \<and>
     next (heap (childrenlist_append s p new) a) = next (heap s a)"
  "q \<noteq> p \<Longrightarrow> children (heap (childrenlist_append s p new) q) = children (heap s q)"
  by (auto simp: childrenlist_append_def Let_def childrenlist.equality split: option.splits)

lemma insert_footprint:
  "a \<noteq> new \<Longrightarrow> a \<noteq> ref \<Longrightarrow> Some a \<noteq> prev (heap s ref) \<Longrightarrow>
     prev (heap (childrenlist_insert_before s p ref new) a) = prev (heap s a) \<and>
     next (heap (childrenlist_insert_before s p ref new) a) = next (heap s a)"
  "q \<noteq> p \<Longrightarrow> children (heap (childrenlist_insert_before s p ref new) q) = children (heap s q)"
  by (auto simp: childrenlist_insert_before_def Let_def childrenlist.equality split: option.splits)

lemma delete_footprint:
  "Some a \<noteq> prev (heap s node) \<Longrightarrow> Some a \<noteq> next (heap s node) \<Longrightarrow>
     prev (heap (after (childrenlist_delete s p node)) a) = prev (heap s a) \<and>
     next (heap (after (childrenlist_delete s p node)) a) = next (heap s a)"
  "q \<noteq> p \<Longrightarrow> children (heap (after (childrenlist_delete s p node)) q) = children (heap s q)"
  "cmap (heap (after (childrenlist_delete s p node)) b) = cmap (heap s b)"
  by (auto simp: childrenlist_delete_def Let_def childrenlist.equality split: option.splits)

lemma digit_inj: "a < 10 \<Longrightarrow> b < 10 \<Longrightarrow> digit a = digit b \<Longrightarrow> a = b"
proof -
  assume "a < 10" "b < 10" "digit a = digit b"
  moreover have "distinct ''0123456789''" by simp
  moreover have "length ''0123456789'' = 10" by simp
  ultimately show "a = b"
    unfolding digit_def by (metis nth_eq_iff_index_eq)
qed

lemma str_not_Nil: "str n \<noteq> []"
  by (subst str.simps) simp

lemma str_inj: "str a = str b \<Longrightarrow> a = b"
proof (induction a arbitrary: b rule: str.induct)
  case (1 a)
  show ?case
  proof (cases "a < 10")
    case True
    with "1.prems" have "b < 10"
      using str_not_Nil [of "b div 10"] by (subst (asm) str.simps, subst (asm) (2) str.simps) (auto split: if_splits)
    with True "1.prems" show ?thesis
      by (subst (asm) str.simps, subst (asm) (2) str.simps) (auto dest: digit_inj)
  next
    case False
    then have a: "str a = str (a div 10) @ [digit (a mod 10)]"
      by (subst str.simps) simp
    have "\<not> b < 10"
    proof
      assume "b < 10"
      then have "str b = [digit b]" by (subst str.simps) simp
      with a "1.prems" str_not_Nil [of "a div 10"] show False by simp
    qed
    then have b: "str b = str (b div 10) @ [digit (b mod 10)]"
      by (subst str.simps) simp
    from a b "1.prems" have e: "str (a div 10) = str (b div 10)"
      and d: "digit (a mod 10) = digit (b mod 10)" by simp_all
    from "1.IH" [OF False e] have "a div 10 = b div 10" .
    moreover from d have "a mod 10 = b mod 10" by (intro digit_inj) simp_all
    ultimately show ?thesis by (metis div_mult_mod_eq)
  qed
qed

lemma node_name_inj: "node_name a = node_name b \<Longrightarrow> a = b"
  by (simp add: node_name_def str_inj)

section \<open>The methods on a well-formed sibling list\<close>

lemma insert_before_None:
  "insert_before s p new None =
     Inr (new, set_cmap (childrenlist_append s p new) p
                 ((cmap (heap s p))(name (heap s new) \<mapsto> new)))"
  by (simp add: insert_before_def Let_def)

lemma insert_before_Some:
  "insert_before s p new (Some r) =
     (if has_as_child s p (Inr r)
      then Inr (new, set_cmap (childrenlist_insert_before s p r new) p
                       ((cmap (heap s p))(name (heap s new) \<mapsto> new)))
      else Inl (NotAChild, s))"
  by (simp add: insert_before_def Let_def)

lemma remove_child_on_list:
  assumes "sibling_list s p (xs @ c # ys)" and "has_as_child s p (Inr c)"
  shows "\<exists>s1. childrenlist_delete s p c = Inr ((), s1) \<and> sibling_list s1 p (xs @ ys) \<and>
              remove_child s p c =
                Inr (c, set_cmap s1 p ((cmap (heap s p))(name (heap s c) := None)))"
proof -
  from delete_sibling_list [OF assms(1)] obtain s1
    where d: "childrenlist_delete s p c = Inr ((), s1)" and l: "sibling_list s1 p (xs @ ys)"
    by blast
  have s1: "s1 = after (childrenlist_delete s p c)" using d by simp
  have "same_census s s1" unfolding s1 by simp
  then have n: "name (heap s1 c) = name (heap s c)" by (simp add: same_census_def)
  have m: "cmap (heap s1 p) = cmap (heap s p)" unfolding s1 by (simp add: delete_footprint)
  from assms(2) d n m l show ?thesis
    by (auto simp: remove_child_def child_existence_required_def remove_child_body_def
        cmap_pop_def split: option.splits)
qed

lemma remove_child_returns:
  assumes "remove_child s p child = Inr (r, s')"
  shows "r = child \<and> \<not> has_as_child s' p (Inr child) \<and> same_census s s'"
proof -
  have s': "s' = after (remove_child s p child)"
    using assms by simp
  have c: "same_census s s'"
    unfolding s' by simp
  from assms obtain s1 u where d: "childrenlist_delete s p child = Inr (u, s1)"
    and pop: "cmap_pop s1 p (name (heap s1 child)) = Inr ((), s')" and r: "r = child"
    by (auto simp: remove_child_def child_existence_required_def remove_child_body_def
        split: if_splits sum.splits)
  from pop have "s' = set_cmap s1 p ((cmap (heap s1 p))(name (heap s1 child) := None))"
    by (auto simp: cmap_pop_def split: option.splits)
  then have "cmap (heap s' p) (name (heap s' child)) = None"
    by simp
  with r c show ?thesis by simp
qed

lemma sibling_list_member_links:
  assumes "sibling_list s p (xs @ c # ys)"
  shows "prev (heap s c) = first (rev xs) None" and "next (heap s c) = first ys None"
    and "Some c \<noteq> prev (heap s c)" and "Some c \<noteq> next (heap s c)"
  using assms by (auto simp: sibling_list_def links_append dest: first_in')

lemma remove_child_keeps_links:
  assumes "sibling_list s p (xs @ child # ys)" and "remove_child s p child = Inr (r, s')"
  shows "iterate s' p = Some (xs @ ys) \<and> prev (heap s' child) = prev (heap s child) \<and>
         next (heap s' child) = next (heap s child)"
proof -
  from assms(2) have h: "has_as_child s p (Inr child)"
    by (auto simp: remove_child_def child_existence_required_def split: if_splits)
  from remove_child_on_list [OF assms(1) h] assms(2) obtain s1
    where d: "childrenlist_delete s p child = Inr ((), s1)"
      and l: "sibling_list s1 p (xs @ ys)"
      and s': "s' = set_cmap s1 p ((cmap (heap s p))(name (heap s child) := None))"
    by auto
  have s1: "s1 = after (childrenlist_delete s p child)"
    using d by simp
  have "prev (heap s1 child) = prev (heap s child) \<and> next (heap s1 child) = next (heap s child)"
    unfolding s1 using sibling_list_member_links(3,4) [OF assms(1)]
    by (intro delete_footprint(1))
  with l show ?thesis
    by (simp add: s' iterate_sibling_list)
qed

section \<open>The invariant of proper processes\<close>

lemma wf_name_inj:
  "wf s L \<Longrightarrow> a < allocated s \<Longrightarrow> b < allocated s \<Longrightarrow>
     name (heap s a) = name (heap s b) \<Longrightarrow> a = b"
  by (auto simp: wf_def dest: node_name_inj)

lemma wf_sibling_list: "wf s L \<Longrightarrow> p < allocated s \<Longrightarrow> sibling_list s p (L p)"
  by (simp add: wf_def)

lemma wf_indexed: "wf s L \<Longrightarrow> p < allocated s \<Longrightarrow> indexed s p (L p)"
  by (simp add: wf_def)

lemma wf_member: "wf s L \<Longrightarrow> p < allocated s \<Longrightarrow> c \<in> set (L p) \<Longrightarrow> c < allocated s"
  by (simp add: wf_def)

lemma wf_disjoint:
  assumes "wf s L" and "p < allocated s" and "q < allocated s" and "p \<noteq> q"
    and "c \<in> set (L p)"
  shows "c \<notin> set (L q)"
proof -
  from assms(1-4) have "set (L p) \<inter> set (L q) = {}"
    unfolding wf_def by blast
  with assms(5) show ?thesis by blast
qed

lemma wf_unattached:
  assumes "wf s L" and "unattached s new" and "q < allocated s"
  shows "new \<notin> set (L q)"
proof
  assume "new \<in> set (L q)"
  with wf_indexed [OF assms(1,3)] have "cmap (heap s q) (name (heap s new)) = Some new"
    by (simp add: indexed_def)
  with assms(2,3) show False
    by (simp add: unattached_def)
qed

lemma wf_child_in_list:
  assumes "wf s L" and "p < allocated s" and "c < allocated s" and "has_as_child s p (Inr c)"
  shows "c \<in> set (L p)"
proof -
  from assms(4) obtain c' where c': "cmap (heap s p) (name (heap s c)) = Some c'"
    by auto
  with wf_indexed [OF assms(1,2)]
  have m: "c' \<in> set (L p)" and n: "name (heap s c') = name (heap s c)"
    by (auto simp: indexed_def)
  from wf_name_inj [OF assms(1) wf_member [OF assms(1,2) m] assms(3) n] have "c' = c" .
  with m show ?thesis by simp
qed

lemma wf_update:
  assumes wf: "wf s L" and p: "p < allocated s"
    and census: "same_census s s'"
    and list: "sibling_list s' p cs'"
    and index: "indexed s' p cs'"
    and members: "\<And>c. c \<in> set cs' \<Longrightarrow> c < allocated s"
    and frame: "\<And>q. q \<noteq> p \<Longrightarrow>
                  children (heap s' q) = children (heap s q) \<and> cmap (heap s' q) = cmap (heap s q)"
    and links: "\<And>q c. q < allocated s \<Longrightarrow> q \<noteq> p \<Longrightarrow> c \<in> set (L q) \<Longrightarrow>
                  prev (heap s' c) = prev (heap s c) \<and> next (heap s' c) = next (heap s c)"
    and apart: "\<And>q c. q < allocated s \<Longrightarrow> q \<noteq> p \<Longrightarrow> c \<in> set cs' \<Longrightarrow> c \<notin> set (L q)"
  shows "wf s' (L(p := cs'))"
proof -
  from census have al: "allocated s' = allocated s" and co: "count s' = count s"
    and nm: "\<And>b. name (heap s' b) = name (heap s b)"
    by (simp_all add: same_census_def)
  have other: "sibling_list s' q (L q) \<and> indexed s' q (L q)"
    if q: "q < allocated s" and qp: "q \<noteq> p" for q
  proof -
    have "sibling_list s' q (L q) = sibling_list s q (L q)"
    proof (rule sibling_list_cong)
      show "children (heap s' q) = children (heap s q)"
        using frame [OF qp] by simp
      show "prev (heap s' c) = prev (heap s c) \<and> next (heap s' c) = next (heap s c)"
        if "c \<in> set (L q)" for c
        using links [OF q qp that] .
    qed
    moreover have "indexed s' q (L q) = indexed s q (L q)"
    proof (rule indexed_cong)
      show "cmap (heap s' q) = cmap (heap s q)"
        using frame [OF qp] by simp
      show "name (heap s' c) = name (heap s c)" for c
        by (rule nm)
    qed
    ultimately show ?thesis
      using wf_sibling_list [OF wf q] wf_indexed [OF wf q] by simp
  qed
  have 1: "count s' = allocated s'"
    using wf by (simp add: wf_def al co)
  have 2: "\<forall>a < allocated s'. name (heap s' a) = node_name a"
    using wf by (simp add: wf_def al nm)
  have 3: "sibling_list s' q ((L(p := cs')) q) \<and> indexed s' q ((L(p := cs')) q) \<and>
           (\<forall>c \<in> set ((L(p := cs')) q). c < allocated s')"
    if q: "q < allocated s'" for q
  proof (cases "q = p")
    case True
    with list index members show ?thesis by (simp add: al)
  next
    case False
    from q have q': "q < allocated s" by (simp add: al)
    from other [OF q' False] wf_member [OF wf q'] False show ?thesis
      by (simp add: al)
  qed
  have 4: "set ((L(p := cs')) q) \<inter> set ((L(p := cs')) r) = {}"
    if q: "q < allocated s'" and r: "r < allocated s'" and qr: "q \<noteq> r" for q r
  proof -
    from q r have q': "q < allocated s" and r': "r < allocated s" by (simp_all add: al)
    show ?thesis
    proof (cases "q = p")
      case True
      with qr have "r \<noteq> p" by simp
      with apart [OF r' this] True show ?thesis
        by (simp add: disjoint_iff)
    next
      case False
      note qp = this
      show ?thesis
      proof (cases "r = p")
        case True
        with apart [OF q' qp] qp show ?thesis
          by (simp add: disjoint_iff) blast
      next
        case False
        with wf_disjoint [OF wf q' r' qr] qp show ?thesis
          by (simp add: disjoint_iff)
      qed
    qed
  qed
  from 1 2 3 4 show ?thesis
    unfolding wf_def by blast
qed

lemma indexed_add:
  assumes "indexed s p cs"
    and "\<And>c. c \<in> set cs \<Longrightarrow> name (heap s c) \<noteq> name (heap s new)"
    and "cmap (heap s' p) = (cmap (heap s p))(name (heap s new) \<mapsto> new)"
    and "\<And>b. name (heap s' b) = name (heap s b)"
    and "set cs' = insert new (set cs)"
  shows "indexed s' p cs'"
  using assms unfolding indexed_def by (auto split: if_splits)

lemma indexed_del:
  assumes "indexed s p cs"
    and "\<And>c. c \<in> set cs \<Longrightarrow> name (heap s c) = name (heap s child) \<Longrightarrow> c = child"
    and "cmap (heap s' p) = (cmap (heap s p))(name (heap s child) := None)"
    and "\<And>b. name (heap s' b) = name (heap s b)"
    and "set cs' = set cs - {child}"
  shows "indexed s' p cs'"
  using assms unfolding indexed_def by (auto split: if_splits)

lemma wf_init: "wf init (\<lambda>p. [])"
  by (simp add: wf_def init_def)

lemma wf_Node_init:
  assumes "wf s L"
  shows "wf (snd (Node_init s t par)) (L(allocated s := []))"
proof -
  let ?n = "allocated s"
  let ?s' = "snd (Node_init s t par)"
  have h: "heap ?s' a = heap s a" if "a \<noteq> ?n" for a
    using that by (simp add: Node_init_def make_name_def Let_def)
  have al: "allocated ?s' = Suc ?n" and co: "count ?s' = Suc (count s)"
    by (simp_all add: Node_init_def make_name_def Let_def)
  have new: "name (heap ?s' ?n) = node_name (count s)"
      "children (heap ?s' ?n) = \<lparr>head = None, tail = None\<rparr>" "cmap (heap ?s' ?n) = Map.empty"
    by (simp_all add: Node_init_def make_name_def Let_def node_name_def lower_class_name)
  have cnt: "count s = ?n"
    using assms by (simp add: wf_def)
  have old: "sibling_list ?s' q (L q) \<and> indexed ?s' q (L q) \<and> (\<forall>c \<in> set (L q). c < ?n)"
    if q: "q < ?n" for q
  proof -
    have m: "c < ?n" if "c \<in> set (L q)" for c
      using wf_member [OF assms q that] .
    have "sibling_list ?s' q (L q) = sibling_list s q (L q)"
    proof (rule sibling_list_cong)
      show "children (heap ?s' q) = children (heap s q)"
        using q by (simp add: h)
      show "prev (heap ?s' c) = prev (heap s c) \<and> next (heap ?s' c) = next (heap s c)"
        if "c \<in> set (L q)" for c
        using m [OF that] by (simp add: h)
    qed
    moreover have "indexed ?s' q (L q) = indexed s q (L q)"
      unfolding indexed_def
    proof -
      have a: "cmap (heap ?s' q) = cmap (heap s q)" using q by (simp add: h)
      have b: "name (heap ?s' c) = name (heap s c)" if "c \<in> set (L q)" for c
        using m [OF that] by (simp add: h)
      have c: "c \<in> set (L q)" if "cmap (heap s q) nm = Some c" for nm c
        using wf_indexed [OF assms q] that by (simp add: indexed_def)
      show "((\<forall>c\<in>set (L q). cmap (heap ?s' q) (name (heap ?s' c)) = Some c) \<and>
             (\<forall>nm c. cmap (heap ?s' q) nm = Some c \<longrightarrow> c \<in> set (L q) \<and> name (heap ?s' c) = nm)) =
            ((\<forall>c\<in>set (L q). cmap (heap s q) (name (heap s c)) = Some c) \<and>
             (\<forall>nm c. cmap (heap s q) nm = Some c \<longrightarrow> c \<in> set (L q) \<and> name (heap s c) = nm))"
        unfolding a using b c by metis
    qed
    ultimately show ?thesis
      using wf_sibling_list [OF assms q] wf_indexed [OF assms q] m by simp
  qed
  have 1: "count ?s' = allocated ?s'"
    by (simp add: al co cnt)
  have 2: "\<forall>a < allocated ?s'. name (heap ?s' a) = node_name a"
  proof (intro allI impI)
    fix a assume "a < allocated ?s'"
    then have "a = ?n \<or> a < ?n" unfolding al by arith
    then consider "a = ?n" | "a < ?n" by blast
    then show "name (heap ?s' a) = node_name a"
    proof cases
      case 1 with new cnt show ?thesis by simp
    next
      case 2 with assms show ?thesis by (simp add: h wf_def)
    qed
  qed
  have 3: "sibling_list ?s' q ((L(?n := [])) q) \<and> indexed ?s' q ((L(?n := [])) q) \<and>
           (\<forall>c \<in> set ((L(?n := [])) q). c < allocated ?s')"
    if "q < allocated ?s'" for q
  proof (cases "q = ?n")
    case True
    with new show ?thesis by (simp add: sibling_list_def indexed_def)
  next
    case False
    with that have "q < ?n" by (simp add: al)
    from old [OF this] False show ?thesis by (auto simp: al)
  qed
  have 4: "set ((L(?n := [])) q) \<inter> set ((L(?n := [])) r) = {}"
    if "q < allocated ?s'" and "r < allocated ?s'" and "q \<noteq> r" for q r
  proof (cases "q = ?n \<or> r = ?n")
    case True
    then show ?thesis by auto
  next
    case False
    with that have "q < ?n" "r < ?n" by (simp_all add: al)
    with assms that(3) False show ?thesis by (simp add: wf_def)
  qed
  from 1 2 3 4 show ?thesis
    unfolding wf_def by blast
qed

lemma wf_fresh_name:
  assumes "wf s L" and "p < allocated s" and "new < allocated s" and "new \<notin> set (L p)"
    and "c \<in> set (L p)"
  shows "name (heap s c) \<noteq> name (heap s new)"
  using wf_name_inj [OF assms(1) wf_member [OF assms(1,2,5)] assms(3)] assms(4,5) by blast

lemma wf_insert_append:
  assumes wf: "wf s L" and p: "p < allocated s" and new: "new < allocated s"
    and un: "unattached s new"
  shows "wf (after (insert_before s p new None)) (L(p := L p @ [new]))"
proof -
  let ?s1 = "childrenlist_append s p new"
  let ?s' = "set_cmap ?s1 p ((cmap (heap s p))(name (heap s new) \<mapsto> new))"
  have s': "after (insert_before s p new None) = ?s'"
    by (simp add: insert_before_None)
  have l: "sibling_list s p (L p)"
    by (rule wf_sibling_list [OF wf p])
  have fresh: "new \<notin> set (L q)" if "q < allocated s" for q
    by (rule wf_unattached [OF wf un that])
  show ?thesis
    unfolding s'
  proof (rule wf_update [OF wf p])
    show "same_census s ?s'"
      by (simp add: same_census_def)
    show "sibling_list ?s' p (L p @ [new])"
      using append_sibling_list [OF l fresh [OF p]] by simp
    show "indexed ?s' p (L p @ [new])"
    proof (rule indexed_add [OF wf_indexed [OF wf p]])
      show "name (heap s c) \<noteq> name (heap s new)" if "c \<in> set (L p)" for c
        by (rule wf_fresh_name [OF wf p new fresh [OF p] that])
    qed simp_all
    show "c < allocated s" if "c \<in> set (L p @ [new])" for c
      using that new wf_member [OF wf p] by auto
    show "children (heap ?s' q) = children (heap s q) \<and> cmap (heap ?s' q) = cmap (heap s q)"
      if "q \<noteq> p" for q
      using that by (simp add: append_footprint)
    show "prev (heap ?s' c) = prev (heap s c) \<and> next (heap ?s' c) = next (heap s c)"
      if q: "q < allocated s" and qp: "q \<noteq> p" and c: "c \<in> set (L q)" for q c
    proof -
      from fresh [OF q] c have 1: "c \<noteq> new" by blast
      have 2: "Some c \<noteq> tail (children (heap s p))"
      proof
        assume "Some c = tail (children (heap s p))"
        then have "c \<in> set (L p)" using sibling_list_tail_in [OF l] by simp
        with wf_disjoint [OF wf q p qp c] show False by simp
      qed
      from append_footprint(1) [OF 1 2] show ?thesis by simp
    qed
    show "c \<notin> set (L q)" if q: "q < allocated s" and qp: "q \<noteq> p"
      and c: "c \<in> set (L p @ [new])" for q c
      using c fresh [OF q] wf_disjoint [OF wf p q] qp by auto
  qed
qed

lemma wf_insert_ref:
  assumes wf: "wf s L" and p: "p < allocated s" and new: "new < allocated s"
    and un: "unattached s new" and lp: "L p = xs @ r # ys" and h: "has_as_child s p (Inr r)"
  shows "wf (after (insert_before s p new (Some r))) (L(p := xs @ new # r # ys))"
proof -
  let ?s1 = "childrenlist_insert_before s p r new"
  let ?s' = "set_cmap ?s1 p ((cmap (heap s p))(name (heap s new) \<mapsto> new))"
  have s': "after (insert_before s p new (Some r)) = ?s'"
    using h by (simp add: insert_before_Some)
  have l: "sibling_list s p (xs @ r # ys)"
    using wf_sibling_list [OF wf p] lp by simp
  have fresh: "new \<notin> set (L q)" if "q < allocated s" for q
    by (rule wf_unattached [OF wf un that])
  have fp: "new \<notin> set (xs @ r # ys)"
    using fresh [OF p] lp by simp
  have rin: "r \<in> set (L p)"
    using lp by simp
  show ?thesis
    unfolding s'
  proof (rule wf_update [OF wf p])
    show "same_census s ?s'"
      by (simp add: same_census_def)
    show "sibling_list ?s' p (xs @ new # r # ys)"
      using insert_sibling_list [OF l fp] by simp
    show "indexed ?s' p (xs @ new # r # ys)"
    proof (rule indexed_add [OF wf_indexed [OF wf p]])
      show "name (heap s c) \<noteq> name (heap s new)" if "c \<in> set (L p)" for c
        by (rule wf_fresh_name [OF wf p new fresh [OF p] that])
      show "set (xs @ new # r # ys) = insert new (set (L p))"
        using lp by auto
    qed simp_all
    show "c < allocated s" if "c \<in> set (xs @ new # r # ys)" for c
      using that new wf_member [OF wf p, of c] lp by auto
    show "children (heap ?s' q) = children (heap s q) \<and> cmap (heap ?s' q) = cmap (heap s q)"
      if "q \<noteq> p" for q
      using that by (simp add: insert_footprint)
    show "prev (heap ?s' c) = prev (heap s c) \<and> next (heap ?s' c) = next (heap s c)"
      if q: "q < allocated s" and qp: "q \<noteq> p" and c: "c \<in> set (L q)" for q c
    proof -
      from fresh [OF q] c have 1: "c \<noteq> new" by blast
      from wf_disjoint [OF wf q p qp c] rin have 2: "c \<noteq> r" by blast
      have 3: "Some c \<noteq> prev (heap s r)"
      proof
        assume "Some c = prev (heap s r)"
        then have "c \<in> set (L p)"
          using sibling_list_prev_in [OF wf_sibling_list [OF wf p] rin, of c] by simp
        with wf_disjoint [OF wf q p qp c] show False by simp
      qed
      from insert_footprint(1) [OF 1 2 3] show ?thesis by simp
    qed
    show "c \<notin> set (L q)" if q: "q < allocated s" and qp: "q \<noteq> p"
      and c: "c \<in> set (xs @ new # r # ys)" for q c
    proof -
      from c lp have "c = new \<or> c \<in> set (L p)" by auto
      with fresh [OF q] wf_disjoint [OF wf p q] qp show ?thesis by auto
    qed
  qed
qed

lemma wf_remove:
  assumes wf: "wf s L" and p: "p < allocated s" and lp: "L p = xs @ child # ys"
    and h: "has_as_child s p (Inr child)"
  shows "wf (after (remove_child s p child)) (L(p := xs @ ys))"
proof -
  have l: "sibling_list s p (xs @ child # ys)"
    using wf_sibling_list [OF wf p] lp by simp
  from remove_child_on_list [OF l h] obtain s1
    where d: "childrenlist_delete s p child = Inr ((), s1)"
      and l1: "sibling_list s1 p (xs @ ys)"
      and rm: "remove_child s p child =
                 Inr (child, set_cmap s1 p ((cmap (heap s p))(name (heap s child) := None)))"
    by blast
  let ?s' = "set_cmap s1 p ((cmap (heap s p))(name (heap s child) := None))"
  have s1: "s1 = after (childrenlist_delete s p child)"
    using d by simp
  have c1: "same_census s s1"
    unfolding s1 by simp
  then have nm: "name (heap s1 b) = name (heap s b)" for b
    by (simp add: same_census_def)
  have cin: "child \<in> set (L p)"
    using lp by simp
  have dist: "distinct (xs @ child # ys)"
    using l by (simp add: sibling_list_def)
  show ?thesis
    unfolding rm after.simps
  proof (rule wf_update [OF wf p])
    show "same_census s ?s'"
      using c1 by (simp add: same_census_def)
    show "sibling_list ?s' p (xs @ ys)"
      using l1 by simp
    show "indexed ?s' p (xs @ ys)"
    proof (rule indexed_del [OF wf_indexed [OF wf p]])
      show "c = child" if "c \<in> set (L p)" and "name (heap s c) = name (heap s child)" for c
        using wf_name_inj [OF wf wf_member [OF wf p that(1)] wf_member [OF wf p cin] that(2)] .
      show "set (xs @ ys) = set (L p) - {child}"
        using dist lp by auto
      show "name (heap ?s' b) = name (heap s b)" for b
        by (simp add: nm)
    qed simp
    show "c < allocated s" if "c \<in> set (xs @ ys)" for c
      using that wf_member [OF wf p, of c] lp by auto
    show "children (heap ?s' q) = children (heap s q) \<and> cmap (heap ?s' q) = cmap (heap s q)"
      if "q \<noteq> p" for q
      using that unfolding s1 by (simp add: delete_footprint)
    show "prev (heap ?s' c) = prev (heap s c) \<and> next (heap ?s' c) = next (heap s c)"
      if q: "q < allocated s" and qp: "q \<noteq> p" and c: "c \<in> set (L q)" for q c
    proof -
      have 1: "Some c \<noteq> prev (heap s child)"
      proof
        assume "Some c = prev (heap s child)"
        then have "c \<in> set (L p)"
          using sibling_list_prev_in [OF wf_sibling_list [OF wf p] cin, of c] by simp
        with wf_disjoint [OF wf q p qp c] show False by simp
      qed
      have 2: "Some c \<noteq> next (heap s child)"
      proof
        assume "Some c = next (heap s child)"
        then have "c \<in> set (L p)"
          using sibling_list_next_in [OF wf_sibling_list [OF wf p] cin, of c] by simp
        with wf_disjoint [OF wf q p qp c] show False by simp
      qed
      from delete_footprint(1) [OF 1 2, of p] show ?thesis
        unfolding s1 by simp
    qed
    show "c \<notin> set (L q)" if q: "q < allocated s" and qp: "q \<noteq> p"
      and c: "c \<in> set (xs @ ys)" for q c
    proof -
      from c lp have "c \<in> set (L p)" by auto
      with wf_disjoint [OF wf p q] qp show ?thesis by auto
    qed
  qed
qed

lemma wf_insert_before:
  assumes wf: "wf s L" and p: "p < allocated s" and new: "new < allocated s"
    and ref: "exists_opt s ref" and un: "unattached s new"
  shows "\<exists>L'. wf (after (insert_before s p new ref)) L'"
proof (cases ref)
  case None
  with wf_insert_append [OF wf p new un] show ?thesis by blast
next
  case (Some r)
  with ref have r: "r < allocated s" by simp
  show ?thesis
  proof (cases "has_as_child s p (Inr r)")
    case True
    from wf_child_in_list [OF wf p r True] obtain xs ys where "L p = xs @ r # ys"
      by (auto simp: in_set_conv_decomp)
    from wf_insert_ref [OF wf p new un this True] Some show ?thesis by blast
  next
    case False
    with Some wf show ?thesis by (auto simp: insert_before_Some)
  qed
qed

lemma wf_remove_child:
  assumes wf: "wf s L" and p: "p < allocated s" and c: "child < allocated s"
  shows "\<exists>L'. wf (after (remove_child s p child)) L'"
proof (cases "has_as_child s p (Inr child)")
  case True
  from wf_child_in_list [OF wf p c True] obtain xs ys where "L p = xs @ child # ys"
    by (auto simp: in_set_conv_decomp)
  from wf_remove [OF wf p this True] show ?thesis by blast
next
  case False
  with wf show ?thesis
    by (auto simp: remove_child_def child_existence_required_def)
qed

lemma wf_replace_child:
  assumes wf: "wf s L" and p: "p < allocated s" and old: "old < allocated s"
    and new: "new < allocated s" and un: "unattached s new"
  shows "\<exists>L'. wf (after (replace_child s p old new)) L'"
proof (cases "insert_before s p new (Some old)")
  case (Inl e)
  then have "after (replace_child s p old new) = after (insert_before s p new (Some old))"
    by (cases e) (simp add: replace_child_eq)
  with wf_insert_before [OF wf p new _ un, of "Some old"] old show ?thesis by simp
next
  case (Inr r)
  obtain u s1 where r: "r = (u, s1)" by (cases r)
  have s1: "s1 = after (insert_before s p new (Some old))" using Inr r by simp
  from wf_insert_before [OF wf p new _ un, of "Some old"] old obtain L1 where wf1: "wf s1 L1"
    unfolding s1 by auto
  have al: "allocated s1 = allocated s"
    unfolding s1 using same_census_insert_before [of s p new "Some old"]
    by (simp add: same_census_def)
  have "after (replace_child s p old new) = after (remove_child s1 p old)"
    using Inr r by (simp add: replace_child_eq)
  with wf_remove_child [OF wf1, of p old] p old al show ?thesis by simp
qed

lemma wf_exec:
  assumes "wf s L" and "proper_call s c"
  shows "\<exists>L'. wf (exec s c) L'"
proof (cases c)
  case (New t par)
  with wf_Node_init [OF assms(1)] show ?thesis by auto
next
  case (InsertBefore p new ref)
  with wf_insert_before [OF assms(1)] assms(2) show ?thesis by simp
next
  case (ReplaceChild p old new)
  with wf_replace_child [OF assms(1)] assms(2) show ?thesis by simp
next
  case (RemoveChild p child)
  with wf_remove_child [OF assms(1)] assms(2) show ?thesis by simp
qed

lemma wf_run: "wf s L \<Longrightarrow> proper s cs \<Longrightarrow> \<exists>L'. wf (run s cs) L'"
proof (induction cs arbitrary: s L)
  case Nil
  then show ?case by auto
next
  case (Cons c cs)
  from wf_exec [OF Cons.prems(1)] Cons.prems(2) obtain L1 where "wf (exec s c) L1"
    by auto
  from Cons.IH [OF this] Cons.prems(2) show ?case by simp
qed

lemma wf_proper: "proper init cs \<Longrightarrow> \<exists>L. wf (run init cs) L"
  using wf_run [OF wf_init] .

lemma run_family_calls: "run init family_calls = family"
  by (simp add: family_calls_def family_def nodes_def eval_nat_numeral)

lemma proper_family_calls: "proper init family_calls"
  by (simp add: family_calls_def evaluate All_less_Suc)

lemma indexed_dom:
  assumes "indexed s p cs"
  shows "dom (cmap (heap s p)) = (\<lambda>c. name (heap s c)) ` set cs"
proof (intro set_eqI iffI)
  fix nm assume "nm \<in> dom (cmap (heap s p))"
  then obtain c where "cmap (heap s p) nm = Some c" by auto
  with assms have "c \<in> set cs" "name (heap s c) = nm" by (auto simp: indexed_def)
  then show "nm \<in> (\<lambda>c. name (heap s c)) ` set cs" by auto
next
  fix nm assume "nm \<in> (\<lambda>c. name (heap s c)) ` set cs"
  with assms show "nm \<in> dom (cmap (heap s p))" by (auto simp: indexed_def)
qed

lemma sibling_list_pointers:
  assumes l: "sibling_list s p cs" and c: "c \<in> set cs"
  shows "Some c \<noteq> head (children (heap s p)) \<longrightarrow>
           (\<exists>b. prev (heap s c) = Some b \<and> next (heap s b) = Some c)"
    and "Some c \<noteq> tail (children (heap s p)) \<longrightarrow>
           (\<exists>a. next (heap s c) = Some a \<and> prev (heap s a) = Some c)"
proof -
  from c obtain xs ys where cs: "cs = xs @ c # ys"
    by (auto simp: in_set_conv_decomp)
  from l have hd: "head (children (heap s p)) = first xs (Some c)"
    and tl: "tail (children (heap s p)) = first (rev ys) (Some c)"
    and l1: "links (heap s) None xs (Some c)"
    and pr: "prev (heap s c) = first (rev xs) None"
    and nx: "next (heap s c) = first ys None"
    and l2: "links (heap s) (Some c) ys None"
    by (auto simp: cs sibling_list_def links_append)
  show "Some c \<noteq> head (children (heap s p)) \<longrightarrow>
           (\<exists>b. prev (heap s c) = Some b \<and> next (heap s b) = Some c)"
  proof (cases xs rule: rev_cases)
    case Nil
    with hd show ?thesis by simp
  next
    case (snoc us b)
    with l1 pr show ?thesis by (auto simp: links_append)
  qed
  show "Some c \<noteq> tail (children (heap s p)) \<longrightarrow>
           (\<exists>a. next (heap s c) = Some a \<and> prev (heap s a) = Some c)"
  proof (cases ys)
    case Nil
    with tl show ?thesis by simp
  next
    case (Cons a vs)
    with l2 nx show ?thesis by auto
  qed
qed

lemma first_Some: "\<exists>a. first xs (Some z) = Some a"
  by (cases xs) simp_all

lemma sibling_list_ends:
  assumes l: "sibling_list s p cs"
  shows "head (children (heap s p)) = Some h \<longrightarrow> h \<in> set cs \<and> prev (heap s h) = None"
    and "tail (children (heap s p)) = Some t \<longrightarrow> t \<in> set cs \<and> next (heap s t) = None"
    and "isempty s p \<longleftrightarrow> cs = []"
    and "head (children (heap s p)) = None \<longleftrightarrow> tail (children (heap s p)) = None"
proof -
  show "head (children (heap s p)) = Some h \<longrightarrow> h \<in> set cs \<and> prev (heap s h) = None"
    using l by (cases cs) (auto simp: sibling_list_def)
  show "tail (children (heap s p)) = Some t \<longrightarrow> t \<in> set cs \<and> next (heap s t) = None"
    using l by (cases cs rule: rev_cases) (auto simp: sibling_list_def links_append)
  show "isempty s p \<longleftrightarrow> cs = []"
    using l by (cases cs) (auto simp: sibling_list_def isempty_def)
  show "head (children (heap s p)) = None \<longleftrightarrow> tail (children (heap s p)) = None"
  proof (cases cs)
    case Nil
    with l show ?thesis by (simp add: sibling_list_def)
  next
    case (Cons a as)
    from first_Some [of "rev as" a] obtain b where "first (rev as) (Some a) = Some b" ..
    with l Cons show ?thesis by (simp add: sibling_list_def)
  qed
qed

text \<open>
  The names in a process of constructions and \<^verbatim>\<open>insert_before\<close>, \<^verbatim>\<open>replace_child\<close> and
  \<^verbatim>\<open>remove_child\<close> calls, proper or not: the counter has advanced once per node, and
  every node carries the name of its creation.
\<close>

lemma names_exec:
  assumes "count s = allocated s" and "\<forall>a < allocated s. name (heap s a) = node_name a"
  shows "count (exec s c) = allocated (exec s c) \<and>
         (\<forall>a < allocated (exec s c). name (heap (exec s c) a) = node_name a)"
proof (cases "\<exists>t par. c = New t par")
  case True
  then obtain t par where c: "c = New t par" by blast
  have "name (heap (snd (Node_init s t par)) a) = node_name a"
    if "a < Suc (allocated s)" for a
  proof (cases "a = allocated s")
    case True
    with assms(1) show ?thesis
      by (simp add: Node_init_def make_name_def Let_def node_name_def lower_class_name)
  next
    case False
    with that have "a < allocated s" by simp
    with assms(2) False show ?thesis
      by (simp add: Node_init_def make_name_def Let_def)
  qed
  with assms(1) show ?thesis
    by (simp add: c Node_init_def make_name_def Let_def)
next
  case False
  with same_census_exec [of s c] have "same_census s (exec s c)" by blast
  with assms show ?thesis by (simp add: same_census_def)
qed

lemma names_run:
  "count s = allocated s \<Longrightarrow> \<forall>a < allocated s. name (heap s a) = node_name a \<Longrightarrow>
     count (run s calls) = allocated (run s calls) \<and>
     (\<forall>a < allocated (run s calls). name (heap (run s calls) a) = node_name a)"
proof (induction calls arbitrary: s)
  case Nil
  then show ?case by simp
next
  case (Cons c calls)
  from names_exec [OF Cons.prems, of c] Cons.IH [of "exec s c"] show ?case by simp
qed

section \<open>The claims\<close>

subsection \<open>C9: insertion leaves the parent reference alone\<close>

text \<open>
  C9. A successful \<^verbatim>\<open>insert_before(new, ref)\<close> returns \<^verbatim>\<open>new\<close> and never modifies
  \<^verbatim>\<open>new.parent\<close>: after the insertion \<^verbatim>\<open>new.parent\<close> has exactly the value it had before
  the call. (No node's \<^verbatim>\<open>parent\<close> is written.)
\<close>

theorem insert_before_keeps_parent:
  assumes "insert_before s self new ref = Inr (r, s')"
  shows "r = new \<and> parent (heap s' new) = parent (heap s new) \<and>
         (\<forall>a. parent (heap s' a) = parent (heap s a))"
  using assms
  by (auto simp: insert_before_def Let_def split: option.splits if_splits)

text \<open>
  Node \<open>1\<close> was created with the document \<open>0\<close> as its parent and is then inserted under
  node \<open>2\<close>: its parent is still \<open>0\<close>.
\<close>

theorem insert_before_keeps_parent_witness:
  "insert_before doc_and_two 2 1 None = Inr (1, after (insert_before doc_and_two 2 1 None)) \<and>
   parent (heap doc_and_two 1) = Some 0 \<and>
   parent (heap (after (insert_before doc_and_two 2 1 None)) 1) = Some 0"
proof -
  have ok: "insert_before doc_and_two 2 1 None =
            Inr (1, after (insert_before doc_and_two 2 1 None))"
    by (simp add: insert_before_def Let_def)
  have before: "parent (heap doc_and_two 1) = Some 0"
    by (simp add: evaluate)
  from insert_before_keeps_parent [OF ok] before ok show ?thesis
    by simp
qed

subsection \<open>C2: \<^verbatim>\<open>NotAChild\<close> is raised exactly for a non-child, before any change\<close>

text \<open>
  C2. \<^verbatim>\<open>insert_before\<close> with an explicit \<^verbatim>\<open>ref\<close>, \<^verbatim>\<open>replace_child\<close> and \<^verbatim>\<open>remove_child\<close> raise
  \<^verbatim>\<open>NotAChild\<close> if and only if the reference or target argument (\<^verbatim>\<open>ref\<close>, \<^verbatim>\<open>old\<close>, \<^verbatim>\<open>child\<close>) is
  not currently a child of the receiver, and when the error is raised the
  receiver's children list and child index are unchanged; indeed the whole state
  is. Being a child of the receiver is what the receiver's \<^verbatim>\<open>has_as_child\<close> answers,
  which is the test the code makes.
\<close>

theorem NotAChild_iff_not_a_child:
  "((\<exists>s'. insert_before s self new (Some ref) = Inl (NotAChild, s')) \<longleftrightarrow>
      \<not> has_as_child s self (Inr ref)) \<and>
   ((\<exists>s'. replace_child s self old new = Inl (NotAChild, s')) \<longleftrightarrow>
      \<not> has_as_child s self (Inr old)) \<and>
   ((\<exists>s'. remove_child s self child = Inl (NotAChild, s')) \<longleftrightarrow>
      \<not> has_as_child s self (Inr child)) \<and>
   (insert_before s self new (Some ref) = Inl (NotAChild, sa) \<longrightarrow> sa = s) \<and>
   (replace_child s self old new = Inl (NotAChild, sb) \<longrightarrow> sb = s) \<and>
   (remove_child s self child = Inl (NotAChild, sc) \<longrightarrow> sc = s)"
  by (auto simp: insert_before_def Let_def remove_child_def replace_child_def
      child_existence_required_def remove_child_body_def replace_child_body_def
      split: option.splits if_splits sum.splits
      dest: childrenlist_delete_error cmap_pop_error)

text \<open>
  Scenario 4 of the specification: among three fresh nodes, inserting \<open>1\<close> before \<open>2\<close>
  under \<open>0\<close>, where \<open>2\<close> was never inserted, raises \<^verbatim>\<open>NotAChild\<close> and leaves the state as
  it was; so do replacing and removing \<open>2\<close>.
\<close>

theorem NotAChild_iff_not_a_child_witness:
  "\<not> has_as_child (nodes 3) 0 (Inr 2) \<and>
   insert_before (nodes 3) 0 1 (Some 2) = Inl (NotAChild, nodes 3) \<and>
   replace_child (nodes 3) 0 2 1 = Inl (NotAChild, nodes 3) \<and>
   remove_child (nodes 3) 0 2 = Inl (NotAChild, nodes 3)"
proof -
  have no: "\<not> has_as_child (nodes 3) 0 (Inr 2)"
    by (simp add: evaluate numeral_3_eq_3)
  from NotAChild_iff_not_a_child
         [where s = "nodes 3" and self = 0 and new = 1 and ref = 2 and old = 2 and child = 2
            and sa = "after (insert_before (nodes 3) 0 1 (Some 2))"
            and sb = "after (replace_child (nodes 3) 0 2 1)"
            and sc = "after (remove_child (nodes 3) 0 2)"]
       no
  show ?thesis
    by auto
qed

subsection \<open>C3: the name given at construction\<close>

text \<open>
  C3, as the code has it. For every node constructed (an object of the class \<^verbatim>\<open>Node\<close>),
  whatever its \<^verbatim>\<open>node_type\<close>, the name assigned at construction is the lower-cased class
  name \<^verbatim>\<open>node\<close>, an underscore and the next value of the global counter. Constructing
  a node advances the counter by one, and so does a direct call of the public method
  \<^verbatim>\<open>make_name\<close>, which returns the same kind of name without constructing anything;
  \<^verbatim>\<open>insert_before\<close>, \<^verbatim>\<open>replace_child\<close> and \<^verbatim>\<open>remove_child\<close> leave the counter where it is,
  whether they return or raise. Hence in a process that consists of constructions
  and \<^verbatim>\<open>insert_before\<close>, \<^verbatim>\<open>replace_child\<close> and \<^verbatim>\<open>remove_child\<close> calls only, with no direct call
  of \<^verbatim>\<open>make_name\<close>, the node constructed as number \<open>a\<close>, counting from 0, is named
  \<^verbatim>\<open>node_\<close>\<open>a\<close>: the 8th node constructed is named \<^verbatim>\<open>node_7\<close>.
\<close>

theorem name_is_class_and_count:
  "name (heap (snd (Node_init s t par)) (fst (Node_init s t par))) = ''node_'' @ str (count s) \<and>
   count (snd (Node_init s t par)) = Suc (count s) \<and>
   fst (make_name s) = ''node_'' @ str (count s) \<and>
   count (snd (make_name s)) = Suc (count s) \<and>
   count (after (insert_before s p new ref)) = count s \<and>
   count (after (replace_child s p old new)) = count s \<and>
   count (after (remove_child s p child)) = count s \<and>
   (\<forall>a < allocated (run init calls). name (heap (run init calls) a) = ''node_'' @ str a)"
proof -
  have 1: "name (heap (snd (Node_init s t par)) (fst (Node_init s t par))) =
             ''node_'' @ str (count s)"
      "count (snd (Node_init s t par)) = Suc (count s)"
      "fst (make_name s) = ''node_'' @ str (count s)"
      "count (snd (make_name s)) = Suc (count s)"
    by (simp_all add: Node_init_def make_name_def Let_def lower_class_name)
  have 2: "count (after (insert_before s p new ref)) = count s"
    using same_census_insert_before [of s p new ref] by (simp add: same_census_def)
  have 3: "count (after (replace_child s p old new)) = count s"
    using same_census_replace [of s p old new] by (simp add: same_census_def)
  have 4: "count (after (remove_child s p child)) = count s"
    using same_census_remove [of s p child] by (simp add: same_census_def)
  have 5: "\<forall>a < allocated (run init calls). name (heap (run init calls) a) = ''node_'' @ str a"
    using names_run [of init calls] by (simp add: init_def node_name_def)
  from 1 2 3 4 5 show ?thesis by blast
qed

text \<open>The 8th node, constructed with node type \<^verbatim>\<open>ELEMENT\<close>, is not named \<^verbatim>\<open>element_7\<close>.\<close>

theorem name_is_type_tag_counterexample:
  "count (nodes 7) = 7 \<and>
   name (heap (snd (Node_init (nodes 7) ELEMENT None)) (fst (Node_init (nodes 7) ELEMENT None)))
     \<noteq> ''element_7''"
  by (simp add: evaluate eval_nat_numeral)

text \<open>
  After eight constructions the 8th node, of type \<^verbatim>\<open>ELEMENT\<close>, is named \<^verbatim>\<open>node_7\<close>. After
  seven constructions and one direct call of \<^verbatim>\<open>make_name\<close> the counter stands at 8, and
  the 8th node constructed is then named \<^verbatim>\<open>node_8\<close>.
\<close>

theorem name_is_class_and_count_witness:
  "(7::nat) < allocated (nodes 8) \<and>
   node_type (heap (nodes 8) 7) = ELEMENT \<and>
   name (heap (nodes 8) 7) = ''node_7'' \<and>
   count (snd (make_name (nodes 7))) = 8 \<and>
   name (heap (snd (Node_init (snd (make_name (nodes 7))) ELEMENT None))
              (fst (Node_init (snd (make_name (nodes 7))) ELEMENT None))) = ''node_8''"
proof -
  have a: "(7::nat) < allocated (nodes 8)" "node_type (heap (nodes 8) 7) = ELEMENT"
    by (simp_all add: evaluate eval_nat_numeral)
  have c: "count (nodes 7) = 7"
    by (simp add: evaluate eval_nat_numeral)
  from name_is_class_and_count
         [where calls = "replicate 8 (New ELEMENT None)" and s = "snd (make_name (nodes 7))"
            and t = ELEMENT and par = None]
       name_is_class_and_count [where s = "nodes 7"]
       a c
  show ?thesis
    by (simp add: nodes_def [symmetric] str.simps digit_def)
qed

subsection \<open>C4: where an inserted node lands\<close>

text \<open>
  C4, as the code has it. For every well-formed child list and every node \<^verbatim>\<open>new\<close> that
  is not already a member of it: a successful \<^verbatim>\<open>insert_before(new, ref)\<close> with \<^verbatim>\<open>ref\<close> a
  member places \<^verbatim>\<open>new\<close> immediately before \<^verbatim>\<open>ref\<close> in the order produced by iteration,
  and \<^verbatim>\<open>insert_before\<close> with absent \<^verbatim>\<open>ref\<close> appends \<^verbatim>\<open>new\<close> at the end; the children that were
  there keep their relative order.
\<close>

theorem insert_before_order:
  assumes "sibling_list s p cs" and "new \<notin> set cs"
  shows "iterate s p = Some cs \<and>
         (insert_before s p new None = Inr (r, s') \<longrightarrow>
            r = new \<and> iterate s' p = Some (cs @ [new])) \<and>
         (cs = xs @ ref # ys \<and> insert_before s p new (Some ref) = Inr (r, s') \<longrightarrow>
            r = new \<and> iterate s' p = Some (xs @ new # ref # ys))"
proof -
  have app: "sibling_list (after (insert_before s p new None)) p (cs @ [new])"
    using append_sibling_list [OF assms] by (simp add: insert_before_None)
  have 1: "r = new \<and> iterate s' p = Some (cs @ [new])"
    if "insert_before s p new None = Inr (r, s')"
  proof -
    from that have "r = new" and "s' = after (insert_before s p new None)"
      by (auto simp: insert_before_None)
    with app show ?thesis by (simp add: iterate_sibling_list)
  qed
  have 2: "r = new \<and> iterate s' p = Some (xs @ new # ref # ys)"
    if "cs = xs @ ref # ys" and "insert_before s p new (Some ref) = Inr (r, s')"
  proof -
    from that(2) have "r = new" and
      "s' = set_cmap (childrenlist_insert_before s p ref new) p
              ((cmap (heap s p))(name (heap s new) \<mapsto> new))"
      by (auto simp: insert_before_Some split: if_splits)
    with insert_sibling_list [of s p xs ref ys new] assms that(1)
    have "sibling_list s' p (xs @ new # ref # ys)" by simp
    with \<open>r = new\<close> show ?thesis by (simp add: iterate_sibling_list)
  qed
  from 1 2 iterate_sibling_list [OF assms(1)] show ?thesis by blast
qed

text \<open>
  The parent \<open>0\<close> already has the children \<open>1, 2\<close>. Appending \<open>1\<close> once more succeeds,
  and iteration then yields \<open>1\<close> alone: \<open>1\<close> is not after \<open>2\<close>, and \<open>2\<close> is no longer
  reached.
\<close>

theorem insert_before_order_counterexample:
  "iterate family 0 = Some [1, 2] \<and>
   insert_before family 0 1 None = Inr (1, after (insert_before family 0 1 None)) \<and>
   iterate (after (insert_before family 0 1 None)) 0 = Some [1]"
  by (simp add: evaluate2)

text \<open>
  Scenario 3 of the specification and an append: with the children \<open>1, 2\<close>, the free
  node \<open>3\<close> inserted before \<open>2\<close> gives \<open>1, 3, 2\<close>, and appended gives \<open>1, 2, 3\<close>.
\<close>

theorem insert_before_order_witness:
  "sibling_list family 0 [1, 2] \<and>
   iterate (after (insert_before family 0 3 (Some 2))) 0 = Some [1, 3, 2] \<and>
   iterate (after (insert_before family 0 3 None)) 0 = Some [1, 2, 3]"
proof -
  have l: "sibling_list family 0 [1, 2]"
    by (simp add: evaluate2)
  have n: "(3::nat) \<notin> set [1, 2]"
    by simp
  have a: "insert_before family 0 3 (Some 2) = Inr (3, after (insert_before family 0 3 (Some 2)))"
    by (simp add: insert_before_Some evaluate2)
  have b: "insert_before family 0 3 None = Inr (3, after (insert_before family 0 3 None))"
    by (simp add: insert_before_None)
  from insert_before_order [OF l n, of 3 "after (insert_before family 0 3 (Some 2))" "[1]" 2 "[]"]
       insert_before_order [OF l n, of 3 "after (insert_before family 0 3 None)" "[1]" 2 "[]"]
       a b l
  show ?thesis by simp
qed

subsection \<open>C10: the list operations never read through \<^verbatim>\<open>None\<close>\<close>

text \<open>
  C10. When \<^verbatim>\<open>node\<close> is a member of a child list that satisfies the doubly-linked
  invariant, \<^verbatim>\<open>_childrenlist.delete\<close> never dereferences an absent reference: if \<^verbatim>\<open>node\<close>
  is not \<^verbatim>\<open>head\<close> then \<^verbatim>\<open>node.prev\<close> is present, if \<^verbatim>\<open>node\<close> is not \<^verbatim>\<open>tail\<close> then \<^verbatim>\<open>node.next\<close> is
  present, and \<^verbatim>\<open>delete\<close> returns. \<^verbatim>\<open>_childrenlist.insert_before\<close> before such a member
  has no failing branch at all; it writes \<^verbatim>\<open>new.prev.next\<close> only when \<^verbatim>\<open>new.prev\<close> is
  present: when the member has a predecessor, that predecessor's \<^verbatim>\<open>next\<close> becomes
  \<^verbatim>\<open>new\<close>, and when it has none, no \<^verbatim>\<open>next\<close> but that of \<^verbatim>\<open>new\<close> is written. The result is a
  well-formed list again.
\<close>

theorem list_operations_total:
  assumes "sibling_list s p cs" and "node \<in> set cs"
  shows "(Some node \<noteq> head (children (heap s p)) \<longrightarrow> prev (heap s node) \<noteq> None) \<and>
         (Some node \<noteq> tail (children (heap s p)) \<longrightarrow> next (heap s node) \<noteq> None) \<and>
         (\<exists>s'. childrenlist_delete s p node = Inr ((), s')) \<and>
         (new \<notin> set cs \<longrightarrow>
            (\<exists>cs'. sibling_list (childrenlist_insert_before s p node new) p cs') \<and>
            (\<forall>b. prev (heap s node) = Some b \<longrightarrow>
                 next (heap (childrenlist_insert_before s p node new) b) = Some new) \<and>
            (prev (heap s node) = None \<longrightarrow>
               (\<forall>a. a \<noteq> new \<longrightarrow>
                  next (heap (childrenlist_insert_before s p node new) a) = next (heap s a))))"
proof -
  from assms(2) obtain xs ys where cs: "cs = xs @ node # ys"
    by (auto simp: in_set_conv_decomp)
  from assms(1) have hd: "head (children (heap s p)) = first xs (Some node)"
    and tl: "tail (children (heap s p)) = first (rev ys) (Some node)"
    and pr: "prev (heap s node) = first (rev xs) None"
    and nx: "next (heap s node) = first ys None"
    by (auto simp: cs sibling_list_def links_append)
  have 1: "Some node \<noteq> head (children (heap s p)) \<longrightarrow> prev (heap s node) \<noteq> None"
    unfolding hd pr by (cases xs rule: rev_cases) auto
  have 2: "Some node \<noteq> tail (children (heap s p)) \<longrightarrow> next (heap s node) \<noteq> None"
    unfolding tl nx by (cases ys) auto
  have 3: "\<exists>s'. childrenlist_delete s p node = Inr ((), s')"
    using delete_sibling_list [of s p xs node ys] assms(1) cs by blast
  have 4: "\<exists>cs'. sibling_list (childrenlist_insert_before s p node new) p cs'"
    if "new \<notin> set cs"
    using insert_sibling_list [of s p xs node ys new] assms(1) that cs by blast
  have 5: "next (heap (childrenlist_insert_before s p node new) b) = Some new"
    if "new \<notin> set cs" and "prev (heap s node) = Some b" for b
  proof -
    from sibling_list_prev_in [OF assms that(2)] that(1) have "b \<noteq> new" by auto
    moreover from that(1) assms(2) have "new \<noteq> node" by auto
    ultimately show ?thesis
      using that(2) by (simp add: childrenlist_insert_before_def Let_def)
  qed
  have 6: "next (heap (childrenlist_insert_before s p node new) a) = next (heap s a)"
    if "new \<notin> set cs" and "prev (heap s node) = None" and "a \<noteq> new" for a
  proof -
    from that(1) assms(2) have "new \<noteq> node" by auto
    with that(2,3) show ?thesis
      by (simp add: childrenlist_insert_before_def Let_def)
  qed
  from 1 2 3 4 5 6 show ?thesis by blast
qed

text \<open>
  In the list \<open>1, 2\<close> of parent \<open>0\<close>: node \<open>2\<close> is not the head and has the predecessor
  \<open>1\<close>, it is the tail, and deleting it returns; inserting the free node \<open>3\<close> before it
  makes \<open>3\<close> the successor of \<open>1\<close>.
\<close>

theorem list_operations_total_witness:
  "sibling_list family 0 [1, 2] \<and>
   head (children (heap family 0)) = Some 1 \<and>
   prev (heap family 2) = Some 1 \<and>
   childrenlist_delete family 0 2 = Inr ((), after (childrenlist_delete family 0 2)) \<and>
   next (heap (childrenlist_insert_before family 0 2 3) 1) = Some 3"
proof -
  have l: "sibling_list family 0 [1, 2]"
    by (simp add: evaluate2)
  have m: "(2::nat) \<in> set [1, 2]"
    by simp
  have f: "head (children (heap family 0)) = Some 1" "prev (heap family 2) = Some 1"
    by (simp_all add: evaluate2)
  from list_operations_total [OF l m, of 3] f l show ?thesis
    by auto
qed

subsection \<open>C7: replacing the first of two children\<close>

text \<open>
  C7 (Scenario 5 of the specification). For a parent \<open>P\<close> whose children are \<open>A, B\<close> in
  this order, with \<open>A\<close> in the index of \<open>P\<close>, and a third node \<open>C\<close> with a name of its
  own: \<^verbatim>\<open>replace_child(A, C)\<close> returns the very node \<open>A\<close>, afterwards iteration over the
  children of \<open>P\<close> yields \<open>C, B\<close>, \<^verbatim>\<open>P.has_as_child(A)\<close> is false and \<^verbatim>\<open>P.has_as_child(C)\<close>
  is true.
\<close>

theorem replace_first_of_two:
  assumes "sibling_list s P [A, B]" and "has_as_child s P (Inr A)"
    and "C \<notin> set [A, B]" and "name (heap s C) \<noteq> name (heap s A)"
  shows "\<exists>s'. replace_child s P A C = Inr (A, s') \<and> iterate s' P = Some [C, B] \<and>
              \<not> has_as_child s' P (Inr A) \<and> has_as_child s' P (Inr C)"
proof -
  define s1 where "s1 = set_cmap (childrenlist_insert_before s P A C) P
                          ((cmap (heap s P))(name (heap s C) \<mapsto> C))"
  have ins: "insert_before s P C (Some A) = Inr (C, s1)"
    using assms(2) by (simp add: insert_before_Some s1_def)
  have l1: "sibling_list s1 P ([C] @ A # [B])"
    using insert_sibling_list [of s P "[]" A "[B]" C] assms(1,3) by (simp add: s1_def)
  have h1: "has_as_child s1 P (Inr A)"
    using assms(2,4) by (simp add: s1_def)
  from remove_child_on_list [OF l1 h1] obtain s2
    where del: "childrenlist_delete s1 P A = Inr ((), s2)"
      and l2: "sibling_list s2 P [C, B]"
      and rm: "remove_child s1 P A =
                 Inr (A, set_cmap s2 P ((cmap (heap s1 P))(name (heap s1 A) := None)))"
    by auto
  let ?s' = "set_cmap s2 P ((cmap (heap s1 P))(name (heap s1 A) := None))"
  have s2: "s2 = after (childrenlist_delete s1 P A)"
    using del by simp
  have "same_census s1 s2"
    unfolding s2 by simp
  then have names: "name (heap ?s' A) = name (heap s A)" "name (heap ?s' C) = name (heap s C)"
    by (simp_all add: same_census_def s1_def)
  have "replace_child s P A C = Inr (A, ?s')"
    using ins rm by (simp add: replace_child_eq)
  moreover have "iterate ?s' P = Some [C, B]"
    using l2 by (intro iterate_sibling_list) simp
  moreover have "\<not> has_as_child ?s' P (Inr A)"
    using names by (simp add: s1_def)
  moreover have "has_as_child ?s' P (Inr C)"
    using names assms(4) by (simp add: s1_def)
  ultimately show ?thesis by blast
qed

text \<open>The scenario itself: \<open>P = 0\<close>, \<open>A = 1\<close>, \<open>B = 2\<close>, \<open>C = 3\<close>.\<close>

theorem replace_first_of_two_witness:
  "iterate family 0 = Some [1, 2] \<and>
   replace_child family 0 1 3 = Inr (1, after (replace_child family 0 1 3)) \<and>
   iterate (after (replace_child family 0 1 3)) 0 = Some [3, 2] \<and>
   \<not> has_as_child (after (replace_child family 0 1 3)) 0 (Inr 1) \<and>
   has_as_child (after (replace_child family 0 1 3)) 0 (Inr 3)"
proof -
  have l: "sibling_list family 0 [1, 2]"
    by (simp add: evaluate2)
  have h: "has_as_child family 0 (Inr 1)"
    by (simp add: evaluate2)
  have n: "(3::nat) \<notin> set [1, 2]"
    by simp
  have d: "name (heap family 3) \<noteq> name (heap family 1)"
    by (simp add: evaluate2)
  from replace_first_of_two [OF l h n d] obtain s'
    where "replace_child family 0 1 3 = Inr (1, s')" and "iterate s' 0 = Some [3, 2]"
      and "\<not> has_as_child s' 0 (Inr 1)" and "has_as_child s' 0 (Inr 3)"
    by blast
  with iterate_sibling_list [OF l] show ?thesis
    by simp
qed

subsection \<open>C5: what detaching a node does to it\<close>

text \<open>
  C5, as the code has it. After a successful \<^verbatim>\<open>remove_child(child)\<close> or
  \<^verbatim>\<open>replace_child(old, new)\<close> the name of the detached node is no longer in the parent's
  child index, the node still exists, with its name, parent and type, and it is the
  node returned to the caller. Its sibling linkage is not cleared. On a well-formed
  child list (and, for \<^verbatim>\<open>replace_child\<close>, a \<^verbatim>\<open>new\<close> that is not already in it) the node is
  no longer reached by iterating the parent's children, \<^verbatim>\<open>remove_child\<close> leaves its
  \<^verbatim>\<open>prev\<close> and \<^verbatim>\<open>next\<close> exactly as they were, and \<^verbatim>\<open>replace_child\<close> leaves \<^verbatim>\<open>old.next\<close> as it was
  and \<^verbatim>\<open>old.prev\<close> referring to \<^verbatim>\<open>new\<close>.
\<close>

theorem detached_node:
  "(remove_child s p child = Inr (r, s') \<longrightarrow>
      r = child \<and> \<not> has_as_child s' p (Inr child) \<and> same_census s s') \<and>
   (replace_child s p old new = Inr (ro, so) \<longrightarrow>
      ro = old \<and> \<not> has_as_child so p (Inr old) \<and> same_census s so) \<and>
   (sibling_list s p (xs @ child # ys) \<and> remove_child s p child = Inr (r, s') \<longrightarrow>
      iterate s' p = Some (xs @ ys) \<and>
      prev (heap s' child) = prev (heap s child) \<and> next (heap s' child) = next (heap s child)) \<and>
   (sibling_list s p (us @ old # vs) \<and> new \<notin> set (us @ old # vs) \<and>
    replace_child s p old new = Inr (ro, so) \<longrightarrow>
      iterate so p = Some (us @ new # vs) \<and>
      prev (heap so old) = Some new \<and> next (heap so old) = next (heap s old))"
proof -
  have 2: "ro = old \<and> \<not> has_as_child so p (Inr old) \<and> same_census s so"
    if "replace_child s p old new = Inr (ro, so)"
  proof -
    from that obtain r1 s1 where "insert_before s p new (Some old) = Inr (r1, s1)"
      and rm: "remove_child s1 p old = Inr (ro, so)"
      by (auto simp: replace_child_eq split: sum.splits)
    have "so = after (replace_child s p old new)"
      using that by simp
    then have "same_census s so" by simp
    with remove_child_returns [OF rm] show ?thesis by simp
  qed
  have 4: "iterate so p = Some (us @ new # vs) \<and>
           prev (heap so old) = Some new \<and> next (heap so old) = next (heap s old)"
    if l: "sibling_list s p (us @ old # vs)" and n: "new \<notin> set (us @ old # vs)"
      and rp: "replace_child s p old new = Inr (ro, so)"
  proof -
    define s1 where "s1 = set_cmap (childrenlist_insert_before s p old new) p
                            ((cmap (heap s p))(name (heap s new) \<mapsto> new))"
    from rp have rm: "remove_child s1 p old = Inr (ro, so)"
      by (auto simp: replace_child_eq insert_before_Some s1_def split: sum.splits if_splits)
    have l1: "sibling_list s1 p ((us @ [new]) @ old # vs)"
      using insert_sibling_list [OF l n] by (simp add: s1_def)
    from n have "new \<noteq> old" by simp
    then have "next (heap s1 old) = next (heap s old)"
      using sibling_list_member_links(1,3) [OF l] n
      by (auto simp: s1_def childrenlist_insert_before_def Let_def split: option.splits
          dest: first_in')
    moreover have "prev (heap s1 old) = Some new"
      using sibling_list_member_links(1) [OF l1] by simp
    ultimately show ?thesis
      using remove_child_keeps_links [OF l1 rm] by simp
  qed
  from remove_child_returns [of s p child r s'] 2 remove_child_keeps_links [of s p xs child ys r s'] 4
  show ?thesis by blast
qed


text \<open>
  Removing the second child \<open>2\<close> of parent \<open>0\<close>: the call returns \<open>2\<close>, whose \<^verbatim>\<open>prev\<close> is not
  absent afterwards; it still refers to the first child \<open>1\<close>.
\<close>

theorem detached_node_counterexample:
  "remove_child family 0 2 = Inr (2, after (remove_child family 0 2)) \<and>
   prev (heap (after (remove_child family 0 2)) 2) = Some 1"
  by (simp add: evaluate2)

theorem detached_node_witness:
  "remove_child family 0 2 = Inr (2, after (remove_child family 0 2)) \<and>
   \<not> has_as_child (after (remove_child family 0 2)) 0 (Inr 2) \<and>
   iterate (after (remove_child family 0 2)) 0 = Some [1] \<and>
   prev (heap (after (remove_child family 0 2)) 2) = prev (heap family 2) \<and>
   replace_child family 0 1 3 = Inr (1, after (replace_child family 0 1 3)) \<and>
   \<not> has_as_child (after (replace_child family 0 1 3)) 0 (Inr 1) \<and>
   iterate (after (replace_child family 0 1 3)) 0 = Some [3, 2] \<and>
   prev (heap (after (replace_child family 0 1 3)) 1) = Some 3"
proof -
  have rm: "remove_child family 0 2 = Inr (2, after (remove_child family 0 2))"
    by (simp add: evaluate2)
  have rp: "replace_child family 0 1 3 = Inr (1, after (replace_child family 0 1 3))"
    by (simp add: evaluate2)
  have l: "sibling_list family 0 ([1] @ 2 # [])" "sibling_list family 0 ([] @ 1 # [2])"
    by (simp_all add: evaluate2)
  have n: "(3::nat) \<notin> set ([] @ 1 # [2])"
    by simp
  from detached_node
         [where s = family and p = 0 and child = 2 and r = 2
            and s' = "after (remove_child family 0 2)" and xs = "[1]" and ys = "[]"
            and old = 1 and new = 3 and ro = 1
            and so = "after (replace_child family 0 1 3)" and us = "[]" and vs = "[2]"]
       rm rp l n
  show ?thesis by simp
qed

subsection \<open>C1: the child index mirrors the child list\<close>

text \<open>
  C1, as the code has it. Take any sequence of node constructions and \<^verbatim>\<open>insert_before\<close>,
  \<^verbatim>\<open>replace_child\<close> and \<^verbatim>\<open>remove_child\<close> calls on existing nodes in which every node passed
  as \<^verbatim>\<open>new\<close> is, at the moment of the call, a child of no node (no node answers
  \<^verbatim>\<open>has_as_child\<close> for it). Then for every node \<open>n\<close>, iterating \<^verbatim>\<open>n.children\<close> ends, and
  the set of keys of the child index of \<open>n\<close> equals the set of names of the nodes the
  iteration yields; \<^verbatim>\<open>n.has_as_child(c)\<close> holds exactly for the nodes \<open>c\<close> it yields.
\<close>

theorem index_mirrors_children:
  assumes "proper init calls" and "s = run init calls" and "n < allocated s"
  shows "\<exists>cs. iterate s n = Some cs \<and>
              dom (cmap (heap s n)) = (\<lambda>c. name (heap s c)) ` set cs \<and>
              (\<forall>c < allocated s. has_as_child s n (Inr c) \<longleftrightarrow> c \<in> set cs)"
proof -
  from wf_proper [OF assms(1)] assms(2) obtain L where wf: "wf s L" by auto
  have 1: "iterate s n = Some (L n)"
    using wf_sibling_list [OF wf assms(3)] by (rule iterate_sibling_list)
  have 2: "dom (cmap (heap s n)) = (\<lambda>c. name (heap s c)) ` set (L n)"
    using wf_indexed [OF wf assms(3)] by (rule indexed_dom)
  have 3: "has_as_child s n (Inr c) \<longleftrightarrow> c \<in> set (L n)" if "c < allocated s" for c
  proof
    assume "has_as_child s n (Inr c)"
    then show "c \<in> set (L n)" by (rule wf_child_in_list [OF wf assms(3) that])
  next
    assume "c \<in> set (L n)"
    with wf_indexed [OF wf assms(3)] show "has_as_child s n (Inr c)"
      by (simp add: indexed_def)
  qed
  from 1 2 3 show ?thesis by blast
qed

text \<open>
  The parent \<open>0\<close> has the children \<open>1, 2\<close> and \<open>1\<close> is appended once more. Iteration then
  yields \<open>1\<close> alone, while the index still has the key \<^verbatim>\<open>node_2\<close>, which is not the name of
  \<open>1\<close>.
\<close>

theorem index_mirrors_children_counterexample:
  "iterate (after (insert_before family 0 1 None)) 0 = Some [1] \<and>
   name (heap (after (insert_before family 0 1 None)) 1) = ''node_1'' \<and>
   cmap (heap (after (insert_before family 0 1 None)) 0) ''node_2'' = Some 2"
  by (simp add: evaluate2)

theorem index_mirrors_children_witness:
  "proper init family_calls \<and>
   iterate (run init family_calls) 0 = Some [1, 2] \<and>
   dom (cmap (heap (run init family_calls) 0)) = {''node_1'', ''node_2''}"
proof -
  have a: "(0::nat) < allocated (run init family_calls)"
    unfolding run_family_calls by (simp add: evaluate2)
  have i: "iterate (run init family_calls) 0 = Some [1, 2]"
    unfolding run_family_calls by (simp add: evaluate2)
  have n: "name (heap (run init family_calls) 1) = ''node_1''"
      "name (heap (run init family_calls) 2) = ''node_2''"
    unfolding run_family_calls by (simp_all add: evaluate2)
  from index_mirrors_children [OF proper_family_calls refl a] i n proper_family_calls
  show ?thesis by auto
qed

subsection \<open>C6: the sibling list is doubly linked\<close>

text \<open>
  C6, as the code has it. After any sequence of calls as in C1 (every node passed as
  \<^verbatim>\<open>new\<close> is a child of no node when it is passed), the child list of every node
  satisfies the doubly-linked invariant: iteration ends and yields each member
  once; for every member \<open>c\<close> that is not \<^verbatim>\<open>head\<close>, \<^verbatim>\<open>c.prev.next\<close> is \<open>c\<close>; for every member
  \<open>c\<close> that is not \<^verbatim>\<open>tail\<close>, \<^verbatim>\<open>c.next.prev\<close> is \<open>c\<close>; \<^verbatim>\<open>head.prev\<close> and \<^verbatim>\<open>tail.next\<close> are absent;
  \<^verbatim>\<open>head\<close> and \<^verbatim>\<open>tail\<close> are both absent exactly when the list has no member, and neither
  is absent without the other.
\<close>

theorem doubly_linked:
  assumes "proper init calls" and "s = run init calls" and "p < allocated s"
  shows "\<exists>cs. iterate s p = Some cs \<and> distinct cs \<and>
           (\<forall>c \<in> set cs.
              (Some c \<noteq> head (children (heap s p)) \<longrightarrow>
                 (\<exists>b. prev (heap s c) = Some b \<and> next (heap s b) = Some c)) \<and>
              (Some c \<noteq> tail (children (heap s p)) \<longrightarrow>
                 (\<exists>a. next (heap s c) = Some a \<and> prev (heap s a) = Some c))) \<and>
           (\<forall>h. head (children (heap s p)) = Some h \<longrightarrow> h \<in> set cs \<and> prev (heap s h) = None) \<and>
           (\<forall>t. tail (children (heap s p)) = Some t \<longrightarrow> t \<in> set cs \<and> next (heap s t) = None) \<and>
           (isempty s p \<longleftrightarrow> cs = []) \<and>
           (head (children (heap s p)) = None \<longleftrightarrow> tail (children (heap s p)) = None)"
proof -
  from wf_proper [OF assms(1)] assms(2) obtain L where wf: "wf s L" by auto
  have l: "sibling_list s p (L p)"
    by (rule wf_sibling_list [OF wf assms(3)])
  show ?thesis
  proof (intro exI [of _ "L p"] conjI ballI allI)
    show "iterate s p = Some (L p)"
      using l by (rule iterate_sibling_list)
    show "distinct (L p)"
      using l by (simp add: sibling_list_def)
    show "Some c \<noteq> head (children (heap s p)) \<longrightarrow>
            (\<exists>b. prev (heap s c) = Some b \<and> next (heap s b) = Some c)"
      if "c \<in> set (L p)" for c
      by (rule sibling_list_pointers(1) [OF l that])
    show "Some c \<noteq> tail (children (heap s p)) \<longrightarrow>
            (\<exists>a. next (heap s c) = Some a \<and> prev (heap s a) = Some c)"
      if "c \<in> set (L p)" for c
      by (rule sibling_list_pointers(2) [OF l that])
    show "head (children (heap s p)) = Some h \<longrightarrow> h \<in> set (L p) \<and> prev (heap s h) = None" for h
      by (rule sibling_list_ends(1) [OF l])
    show "tail (children (heap s p)) = Some t \<longrightarrow> t \<in> set (L p) \<and> next (heap s t) = None" for t
      by (rule sibling_list_ends(2) [OF l])
    show "isempty s p \<longleftrightarrow> L p = []"
      by (rule sibling_list_ends(3) [OF l])
    show "head (children (heap s p)) = None \<longleftrightarrow> tail (children (heap s p)) = None"
      by (rule sibling_list_ends(4) [OF l])
  qed
qed

text \<open>
  The parent \<open>0\<close> has the children \<open>1, 2\<close> and its last child \<open>2\<close> is appended once more.
  Afterwards \<open>2\<close> is a member and not the head, its \<^verbatim>\<open>prev\<close> is \<open>2\<close> itself, and the \<^verbatim>\<open>next\<close>
  of that is absent, not \<open>2\<close>.
\<close>

theorem doubly_linked_counterexample:
  "iterate (after (insert_before family 0 2 None)) 0 = Some [1, 2] \<and>
   head (children (heap (after (insert_before family 0 2 None)) 0)) = Some 1 \<and>
   prev (heap (after (insert_before family 0 2 None)) 2) = Some 2 \<and>
   next (heap (after (insert_before family 0 2 None)) 2) = None"
  by (simp add: evaluate2)

theorem doubly_linked_witness:
  "proper init family_calls \<and>
   iterate (run init family_calls) 0 = Some [1, 2] \<and>
   head (children (heap (run init family_calls) 0)) = Some 1 \<and>
   prev (heap (run init family_calls) 2) = Some 1 \<and>
   next (heap (run init family_calls) 1) = Some 2 \<and>
   prev (heap (run init family_calls) 1) = None"
proof -
  have a: "(0::nat) < allocated (run init family_calls)"
    unfolding run_family_calls by (simp add: evaluate2)
  have i: "iterate (run init family_calls) 0 = Some [1, 2]"
    unfolding run_family_calls by (simp add: evaluate2)
  have h: "head (children (heap (run init family_calls) 0)) = Some 1"
      "prev (heap (run init family_calls) 2) = Some 1"
    unfolding run_family_calls by (simp_all add: evaluate2)
  from doubly_linked [OF proper_family_calls refl a] i h proper_family_calls
  show ?thesis by auto
qed

subsection \<open>C8: a node is the child of one parent at most\<close>

text \<open>
  C8, as the code has it. After any sequence of calls as in C1 (every node passed as
  \<^verbatim>\<open>new\<close> is a child of no node when it is passed), each node is a member of at most
  one parent's sibling list, and at most once: the lists of two different parents
  share no node, and no node is in the child index of both.
\<close>

theorem one_parent_at_a_time:
  assumes "proper init calls" and "s = run init calls"
    and "p < allocated s" and "q < allocated s" and "p \<noteq> q"
  shows "\<exists>cs ds. iterate s p = Some cs \<and> iterate s q = Some ds \<and> distinct cs \<and>
           set cs \<inter> set ds = {} \<and>
           (\<forall>c < allocated s. \<not> (has_as_child s p (Inr c) \<and> has_as_child s q (Inr c)))"
proof -
  from wf_proper [OF assms(1)] assms(2) obtain L where wf: "wf s L" by auto
  have 1: "iterate s p = Some (L p)" "iterate s q = Some (L q)"
    using wf_sibling_list [OF wf assms(3)] wf_sibling_list [OF wf assms(4)]
    by (simp_all add: iterate_sibling_list)
  have 2: "distinct (L p)"
    using wf_sibling_list [OF wf assms(3)] by (simp add: sibling_list_def)
  have 3: "set (L p) \<inter> set (L q) = {}"
    using wf_disjoint [OF wf assms(3,4,5)] by blast
  have 4: "\<not> (has_as_child s p (Inr c) \<and> has_as_child s q (Inr c))"
    if "c < allocated s" for c
  proof
    assume "has_as_child s p (Inr c) \<and> has_as_child s q (Inr c)"
    then have "c \<in> set (L p)" "c \<in> set (L q)"
      using wf_child_in_list [OF wf assms(3) that] wf_child_in_list [OF wf assms(4) that]
      by simp_all
    with 3 show False by blast
  qed
  from 1 2 3 4 show ?thesis by blast
qed

text \<open>
  Node \<open>1\<close> is a child of \<open>0\<close> and is then appended to the children of \<open>3\<close>: iterating the
  children of \<open>0\<close> and those of \<open>3\<close> yields \<open>1\<close> both times, and both answer \<^verbatim>\<open>has_as_child\<close>
  for it.
\<close>

theorem one_parent_at_a_time_counterexample:
  "iterate (after (insert_before family 3 1 None)) 0 = Some [1] \<and>
   iterate (after (insert_before family 3 1 None)) 3 = Some [1] \<and>
   has_as_child (after (insert_before family 3 1 None)) 0 (Inr 1) \<and>
   has_as_child (after (insert_before family 3 1 None)) 3 (Inr 1)"
  by (simp add: evaluate2)

theorem one_parent_at_a_time_witness:
  "proper init family_calls \<and>
   iterate (run init family_calls) 0 = Some [1, 2] \<and>
   iterate (run init family_calls) 3 = Some [] \<and>
   has_as_child (run init family_calls) 0 (Inr 1) \<and>
   \<not> has_as_child (run init family_calls) 3 (Inr 1)"
proof -
  have a: "(0::nat) < allocated (run init family_calls)"
      "(3::nat) < allocated (run init family_calls)"
      "(1::nat) < allocated (run init family_calls)"
    unfolding run_family_calls by (simp_all add: evaluate2)
  have i: "iterate (run init family_calls) 0 = Some [1, 2]"
      "iterate (run init family_calls) 3 = Some []"
      "has_as_child (run init family_calls) 0 (Inr 1)"
    unfolding run_family_calls by (simp_all add: evaluate2)
  have d: "(0::nat) \<noteq> 3"
    by simp
  from one_parent_at_a_time [OF proper_family_calls refl a(1,2) d] i a(3) proper_family_calls
  show ?thesis by auto
qed

end
